theory Spec2Isabelle
  imports
    Complex_Main
    "HOL-Library.Char_ord"
    "HOL-Library.List_Lexorder"
    "HOL-Library.Product_Lexorder"
    "HOL-Library.Multiset"
    "HOL-Library.Word"
begin

section \<open>Data model\<close>

text \<open>
  A float64 that is not NaN: a finite value or one of the two infinities.  Finite values are
  idealised as exact rationals, so rounding and the sign of zero are outside the model.  The
  order is the numeric one.
\<close>

datatype float64 = NegInf | Finite rat | PosInf

instantiation float64 :: linorder
begin

fun less_eq_float64 :: "float64 \<Rightarrow> float64 \<Rightarrow> bool" where
  "less_eq_float64 NegInf y = True"
| "less_eq_float64 x PosInf = True"
| "less_eq_float64 (Finite p) (Finite q) = (p \<le> q)"
| "less_eq_float64 x y = False"

definition less_float64 :: "float64 \<Rightarrow> float64 \<Rightarrow> bool" where
  "less_float64 x y = (x \<le> y \<and> \<not> y \<le> x)"

instance
proof
  fix x y z :: float64
  show "(x < y) = (x \<le> y \<and> \<not> y \<le> x)"
    by (simp add: less_float64_def)
  show "x \<le> x"
    by (cases x) simp_all
  show "x \<le> y \<Longrightarrow> y \<le> z \<Longrightarrow> x \<le> z"
    by (cases x; cases y; cases z) simp_all
  show "x \<le> y \<Longrightarrow> y \<le> x \<Longrightarrow> x = y"
    by (cases x; cases y) simp_all
  show "x \<le> y \<or> y \<le> x"
    by (cases x; cases y) auto
qed

end

text \<open>
  A cell of a pandas DataFrame as \<^verbatim>\<open>dataProcess.py\<close> meets it: an integer of an
  \<^verbatim>\<open>int64\<close> column (a 64-bit word, read as a signed number with \<open>sint\<close>), a float of a
  \<^verbatim>\<open>float64\<close> column, a string of an \<^verbatim>\<open>object\<close> column, or the missing value NaN.
  Every cell is treated as pandas treats it in a column of its own type.  Columns of other types
  (\<^verbatim>\<open>uint64\<close>, \<^verbatim>\<open>bool\<close>, dates) are outside the model.
\<close>

datatype val = VInt "64 word" | VFloat float64 | VStr string | VNaN

text \<open>The exceptions the stages can raise.\<close>

datatype error = KeyError | TypeError | ValueError | OverflowError

text \<open>
  A row maps column names to cells; a frame is the ordered list of its column names and the
  ordered list of its rows.  A row is only ever read at names in \<open>columns\<close>: every stage
  checks the column's presence first (the source's \<^verbatim>\<open>if col in df.columns\<close>) or
  raises \<open>KeyError\<close> as pandas does.  \<open>table\<close> is what a frame shows: the cells of
  each row in column order.  Column names are taken to be distinct; row labels (the pandas
  index) are taken to be unique and are not modelled.
\<close>

type_synonym row = "string \<Rightarrow> val"

record dataframe =
  columns :: "string list"
  rows :: "row list"

definition row_vals :: "string list \<Rightarrow> row \<Rightarrow> val list" where
  "row_vals cs r = map r cs"

definition table :: "dataframe \<Rightarrow> val list list" where
  "table df = map (row_vals (columns df)) (rows df)"

definition col_vals :: "string \<Rightarrow> dataframe \<Rightarrow> val list" where
  "col_vals c df = map (\<lambda>r. r c) (rows df)"

text \<open>
  \<^verbatim>\<open>df[c] = ...\<close>: an existing column keeps its position, a new one is appended.
\<close>

definition with_column :: "string \<Rightarrow> string list \<Rightarrow> string list" where
  "with_column c cs = (if c \<in> set cs then cs else cs @ [c])"

text \<open>Running a cell function that may raise over the rows, stopping at the first error.\<close>

fun traverse :: "('a \<Rightarrow> error + 'b) \<Rightarrow> 'a list \<Rightarrow> error + 'b list" where
  "traverse f [] = Inr []"
| "traverse f (x # xs) =
     (case f x of
        Inl e \<Rightarrow> Inl e
      | Inr y \<Rightarrow> (case traverse f xs of Inl e \<Rightarrow> Inl e | Inr ys \<Rightarrow> Inr (y # ys)))"

subsection \<open>Library conversions\<close>

text \<open>
  Three conversions of Python and pandas whose full behaviour is not part of the program are
  parameters of the model:
  \<^item> \<open>int_of_str\<close>: \<^verbatim>\<open>int(s)\<close> on a string, stored as an \<^verbatim>\<open>int64\<close>, as
    \<^verbatim>\<open>astype(int)\<close> applies it to the strings of an object column; it raises
    \<open>ValueError\<close> on a string that is no integer literal and \<open>OverflowError\<close> on a literal
    outside the 64-bit range;
  \<^item> \<open>numeric_of_str\<close>: the float \<^verbatim>\<open>pd.to_numeric\<close> parses a string to, which may be
    infinite (\<^verbatim>\<open>"inf"\<close>); \<open>None\<close> is a string it cannot parse (NaN under
    \<^verbatim>\<open>errors='coerce'\<close>);
  \<^item> \<open>str_of_float\<close>: \<^verbatim>\<open>str(x)\<close> on a finite float.
  Every theorem holds for all such conversions.
\<close>

record pylib =
  int_of_str :: "string \<Rightarrow> error + 64 word"
  numeric_of_str :: "string \<Rightarrow> float64 option"
  str_of_float :: "rat \<Rightarrow> string"

text \<open>
  The cast of a finite float to \<^verbatim>\<open>int64\<close>: truncation toward zero.  A float whose
  truncation is outside the 64-bit range is cast to the least \<^verbatim>\<open>int64\<close>, which is what the
  conversion instruction of x86-64 returns and numpy passes on.
\<close>

definition trunc :: "rat \<Rightarrow> int" where
  "trunc q = (if 0 \<le> q then \<lfloor>q\<rfloor> else \<lceil>q\<rceil>)"

definition float_to_int64 :: "rat \<Rightarrow> 64 word" where
  "float_to_int64 q =
     (if - (2 ^ 63) \<le> trunc q \<and> trunc q < 2 ^ 63 then word_of_int (trunc q)
      else word_of_int (- (2 ^ 63)))"

text \<open>\<^verbatim>\<open>str(i)\<close> on an integer: its decimal digits, with a minus sign when negative.\<close>

definition digit_char :: "nat \<Rightarrow> char" where
  "digit_char d = ''0123456789'' ! d"

fun digits :: "nat \<Rightarrow> string" where
  "digits n = (if n < 10 then [digit_char n] else digits (n div 10) @ [digit_char (n mod 10)])"

declare digits.simps [simp del]

definition str_of_int :: "int \<Rightarrow> string" where
  "str_of_int i = (if i < 0 then CHR ''-'' # digits (nat (- i)) else digits (nat i))"

text \<open>
  The numeric value of a cell, when it has one.  An integer counts as the float of its value,
  exactly: the rounding of integers beyond \<open>2^53\<close> is outside the model, as all rounding is.
\<close>

definition float_of_int64 :: "64 word \<Rightarrow> float64" where
  "float_of_int64 i = Finite (of_int (sint i))"

fun num_of :: "val \<Rightarrow> float64 option" where
  "num_of (VInt i) = Some (float_of_int64 i)"
| "num_of (VFloat x) = Some x"
| "num_of (VStr s) = None"
| "num_of VNaN = None"

section \<open>The stages\<close>

text \<open>
  pandas works column by column, and so does the model wherever an operation can raise: a stage
  checks the presence of its columns before it touches a cell, and runs each column operation
  that can raise over all rows, in the source's order, before the next one.  So the first error
  the model meets is the error pandas raises.
\<close>

subsection \<open>\<^verbatim>\<open>remove_duplicates\<close>\<close>

text \<open>
  \<^verbatim>\<open>df.drop_duplicates()\<close> keeps a row unless an earlier row has the same cells in all
  columns (\<^verbatim>\<open>keep='first'\<close>; NaN equals NaN there).  A frame with no columns is
  \<^verbatim>\<open>df.empty\<close> and is returned as it is.
\<close>

fun drop_dups :: "string list \<Rightarrow> val list list \<Rightarrow> row list \<Rightarrow> row list" where
  "drop_dups cs seen [] = []"
| "drop_dups cs seen (r # rs) =
     (if row_vals cs r \<in> set seen then drop_dups cs seen rs
      else r # drop_dups cs (row_vals cs r # seen) rs)"

definition drop_duplicates :: "dataframe \<Rightarrow> dataframe" where
  "drop_duplicates df =
     (if columns df = [] \<or> rows df = [] then df
      else df\<lparr>rows := drop_dups (columns df) [] (rows df)\<rparr>)"

definition remove_duplicates :: "dataframe \<Rightarrow> dataframe" where
  "remove_duplicates df = drop_duplicates df"

subsection \<open>\<^verbatim>\<open>remove_missing_values\<close>\<close>

text \<open>
  \<^verbatim>\<open>dropna(subset=critical_columns)\<close> raises \<open>KeyError\<close> when a named column is
  absent, and otherwise keeps the rows with no NaN in those columns.
\<close>

definition dropna :: "string list \<Rightarrow> dataframe \<Rightarrow> error + dataframe" where
  "dropna subset_cols df =
     (if \<not> set subset_cols \<subseteq> set (columns df) then Inl KeyError
      else Inr (df\<lparr>rows := filter (\<lambda>r. list_all (\<lambda>c. r c \<noteq> VNaN) subset_cols) (rows df)\<rparr>))"

text \<open>
  \<^verbatim>\<open>.fillna(0).astype(int)\<close> on one cell: NaN becomes 0, a finite float is cast to
  \<^verbatim>\<open>int64\<close>, an infinite float raises \<open>ValueError\<close> (pandas refuses to convert
  non-finite values to integer), and a string goes through \<^verbatim>\<open>int(s)\<close>.
\<close>

fun fillna0_astype_int :: "pylib \<Rightarrow> val \<Rightarrow> error + val" where
  "fillna0_astype_int L VNaN = Inr (VInt 0)"
| "fillna0_astype_int L (VInt i) = Inr (VInt i)"
| "fillna0_astype_int L (VFloat (Finite q)) = Inr (VInt (float_to_int64 q))"
| "fillna0_astype_int L (VFloat PosInf) = Inl ValueError"
| "fillna0_astype_int L (VFloat NegInf) = Inl ValueError"
| "fillna0_astype_int L (VStr s) =
     (case int_of_str L s of Inl e \<Rightarrow> Inl e | Inr i \<Rightarrow> Inr (VInt i))"

definition fill_correct_row :: "pylib \<Rightarrow> row \<Rightarrow> error + row" where
  "fill_correct_row L r =
     (case fillna0_astype_int L (r ''correct'') of
        Inl e \<Rightarrow> Inl e
      | Inr v \<Rightarrow> Inr (r(''correct'' := v)))"

definition remove_missing_values :: "pylib \<Rightarrow> dataframe \<Rightarrow> string list \<Rightarrow> error + dataframe" where
  "remove_missing_values L df critical_columns =
     (case dropna critical_columns df of
        Inl e \<Rightarrow> Inl e
      | Inr df_clean \<Rightarrow>
          if ''correct'' \<in> set (columns df_clean) then
            (case traverse (fill_correct_row L) (rows df_clean) of
               Inl e \<Rightarrow> Inl e
             | Inr rs \<Rightarrow> Inr (df_clean\<lparr>rows := rs\<rparr>))
          else Inr df_clean)"

subsection \<open>\<^verbatim>\<open>fix_logic_errors\<close>\<close>

text \<open>
  \<^verbatim>\<open>df['hint_count'] > df['hint_total']\<close> on one row.  Numbers compare by value and
  strings by code points; a string against a number raises \<open>TypeError\<close>; a comparison
  with NaN is false.
\<close>

fun val_gt :: "val \<Rightarrow> val \<Rightarrow> error + bool" where
  "val_gt (VStr s) (VStr t) = Inr (t < s)"
| "val_gt VNaN b = Inr False"
| "val_gt a VNaN = Inr False"
| "val_gt (VStr s) b = Inl TypeError"
| "val_gt a (VStr t) = Inl TypeError"
| "val_gt a b = Inr (the (num_of b) < the (num_of a))"

definition clamp_hint_row :: "row \<Rightarrow> error + row" where
  "clamp_hint_row r =
     (case val_gt (r ''hint_count'') (r ''hint_total'') of
        Inl e \<Rightarrow> Inl e
      | Inr gt \<Rightarrow> Inr (if gt then r(''hint_count'' := r ''hint_total'') else r))"

text \<open>\<^verbatim>\<open>isin([0, 1])\<close> on one cell: the float 1.0 equals 1, the string "1" does not.\<close>

fun isin01 :: "val \<Rightarrow> bool" where
  "isin01 (VInt i) = (i = 0 \<or> i = 1)"
| "isin01 (VFloat x) = (x = Finite 0 \<or> x = Finite 1)"
| "isin01 (VStr s) = False"
| "isin01 VNaN = False"

text \<open>
  Python's truth value, for \<^verbatim>\<open>lambda x: 1 if x else 0\<close>: a non-zero number and a
  non-empty string are true, and so is NaN.
\<close>

fun truthy :: "val \<Rightarrow> bool" where
  "truthy (VInt i) = (i \<noteq> 0)"
| "truthy (VFloat x) = (x \<noteq> Finite 0)"
| "truthy (VStr s) = (s \<noteq> [])"
| "truthy VNaN = True"

definition coerce_correct :: "val \<Rightarrow> val" where
  "coerce_correct x = (if isin01 x then x else VInt (if truthy x then 1 else 0))"

definition fix_logic_errors :: "dataframe \<Rightarrow> error + dataframe" where
  "fix_logic_errors df =
     (if ''hint_count'' \<notin> set (columns df) \<or> ''hint_total'' \<notin> set (columns df) then Inl KeyError
      else
        (case traverse clamp_hint_row (rows df) of
           Inl e \<Rightarrow> Inl e
         | Inr rs \<Rightarrow>
             Inr (df\<lparr>rows :=
               (if ''correct'' \<in> set (columns df)
                then map (\<lambda>r. r(''correct'' := coerce_correct (r ''correct''))) rs
                else rs)\<rparr>)))"

subsection \<open>\<^verbatim>\<open>normalize_response_time\<close>\<close>

text \<open>
  \<^verbatim>\<open>pd.to_numeric(..., errors='coerce')\<close> on one cell: a number stays, a string is parsed
  (to a float, since a column that holds strings also holds one that fails or came with NaN),
  and a string that does not parse becomes NaN.  The strings \<^verbatim>\<open>"inf"\<close> and
  \<^verbatim>\<open>"-inf"\<close> parse to the infinities.
\<close>

fun to_numeric :: "pylib \<Rightarrow> val \<Rightarrow> val" where
  "to_numeric L (VInt i) = VInt i"
| "to_numeric L (VFloat x) = VFloat x"
| "to_numeric L (VStr s) = (case numeric_of_str L s of None \<Rightarrow> VNaN | Some x \<Rightarrow> VFloat x)"
| "to_numeric L VNaN = VNaN"

text \<open>\<^verbatim>\<open>.fillna(0)\<close> on the float column that \<^verbatim>\<open>to_numeric\<close> leaves when it holds NaN.\<close>

definition fillna0 :: "val \<Rightarrow> val" where
  "fillna0 v = (if v = VNaN then VFloat (Finite 0) else v)"

text \<open>
  \<^verbatim>\<open>df.loc[df[c] > max_seconds, c] = max_seconds\<close> on one cell, for an integer
  \<^verbatim>\<open>max_seconds\<close> in the 64-bit range: only a number above the cap is replaced, also the
  positive infinity; the cap is stored as an integer in an integer column and as a float in a
  float column.
\<close>

definition clamp_max :: "64 word \<Rightarrow> val \<Rightarrow> val" where
  "clamp_max max_seconds v =
     (case v of
        VInt i \<Rightarrow> if sint max_seconds < sint i then VInt max_seconds else v
      | VFloat x \<Rightarrow> if float_of_int64 max_seconds < x then VFloat (float_of_int64 max_seconds) else v
      | _ \<Rightarrow> v)"

definition normalize_response_time :: "pylib \<Rightarrow> dataframe \<Rightarrow> 64 word \<Rightarrow> dataframe" where
  "normalize_response_time L df max_seconds =
     (if ''ms_first_response'' \<in> set (columns df) then
        df\<lparr>rows := map (\<lambda>r. r(''ms_first_response'' :=
              clamp_max max_seconds (fillna0 (to_numeric L (r ''ms_first_response'')))))
            (rows df)\<rparr>
      else df)"

definition default_max_seconds :: "64 word" where
  "default_max_seconds = 3600"

subsection \<open>\<^verbatim>\<open>add_hint_independence\<close>\<close>

text \<open>\<^verbatim>\<open>.replace(0, 1)\<close> on one cell: a number equal to zero becomes 1.\<close>

fun replace01 :: "val \<Rightarrow> val" where
  "replace01 (VInt i) = (if i = 0 then VInt 1 else VInt i)"
| "replace01 (VFloat x) = (if x = Finite 0 then VFloat (Finite 1) else VFloat x)"
| "replace01 (VStr s) = VStr s"
| "replace01 VNaN = VNaN"

text \<open>
  Division of two floats as numpy does it, without raising; \<open>None\<close> is the float NaN.  A
  finite number over an infinity is 0, an infinity over an infinity is NaN, and a zero divisor
  gives an infinity, or NaN under a zero.  The source replaces zeros before dividing, so the
  last case is never reached from it.
\<close>

fun float_div :: "float64 \<Rightarrow> float64 \<Rightarrow> float64 option" where
  "float_div (Finite p) (Finite q) =
     (if q \<noteq> 0 then Some (Finite (p / q))
      else if p = 0 then None else if 0 < p then Some PosInf else Some NegInf)"
| "float_div (Finite p) y = Some (Finite 0)"
| "float_div PosInf (Finite q) = (if 0 \<le> q then Some PosInf else Some NegInf)"
| "float_div NegInf (Finite q) = (if 0 \<le> q then Some NegInf else Some PosInf)"
| "float_div x y = None"

text \<open>
  True division of two cells (integers divide as floats).  A string operand raises
  \<open>TypeError\<close>; NaN propagates.
\<close>

fun val_div :: "val \<Rightarrow> val \<Rightarrow> error + float64 option" where
  "val_div (VStr s) b = Inl TypeError"
| "val_div a (VStr t) = Inl TypeError"
| "val_div VNaN b = Inr None"
| "val_div a VNaN = Inr None"
| "val_div a b = Inr (float_div (the (num_of a)) (the (num_of b)))"

text \<open>\<^verbatim>\<open>1 - x\<close> on the quotient.\<close>

fun rsub1 :: "float64 option \<Rightarrow> val" where
  "rsub1 None = VNaN"
| "rsub1 (Some (Finite q)) = VFloat (Finite (1 - q))"
| "rsub1 (Some PosInf) = VFloat NegInf"
| "rsub1 (Some NegInf) = VFloat PosInf"

definition hint_independence_row :: "row \<Rightarrow> error + row" where
  "hint_independence_row r =
     (case val_div (r ''hint_count'') (replace01 (r ''hint_total'')) of
        Inl e \<Rightarrow> Inl e
      | Inr x \<Rightarrow> Inr (r(''hint_independence'' := rsub1 x)))"

definition add_hint_independence :: "dataframe \<Rightarrow> error + dataframe" where
  "add_hint_independence df =
     (if ''hint_count'' \<notin> set (columns df) \<or> ''hint_total'' \<notin> set (columns df) then Inl KeyError
      else
        (case traverse hint_independence_row (rows df) of
           Inl e \<Rightarrow> Inl e
         | Inr rs \<Rightarrow>
             Inr (df\<lparr>columns := with_column ''hint_independence'' (columns df), rows := rs\<rparr>)))"

subsection \<open>\<^verbatim>\<open>convert_data_types\<close>\<close>

text \<open>
  \<^verbatim>\<open>.astype(str)\<close> on one cell: a string stays, a number is printed, and NaN becomes the
  string \<open>nan\<close>.
\<close>

fun astype_str :: "pylib \<Rightarrow> val \<Rightarrow> val" where
  "astype_str L (VStr s) = VStr s"
| "astype_str L (VInt i) = VStr (str_of_int (sint i))"
| "astype_str L (VFloat (Finite q)) = VStr (str_of_float L q)"
| "astype_str L (VFloat PosInf) = VStr ''inf''"
| "astype_str L (VFloat NegInf) = VStr ''-inf''"
| "astype_str L VNaN = VStr ''nan''"

definition str_cols :: "string list" where
  "str_cols =
     [''user_id'', ''problem_id'', ''template_id'', ''skill_id'', ''skill_name'',
      ''teacher_id'', ''student_class_id'', ''school_id'']"

definition int_cols :: "string list" where
  "int_cols = [''attempt_count'', ''ms_first_response'', ''hint_count'', ''hint_total'', ''correct'']"

text \<open>The first loop: \<^verbatim>\<open>df[col] = df[col].astype(str)\<close>, \<open>KeyError\<close> on an absent column.\<close>

fun astype_str_cols :: "pylib \<Rightarrow> string list \<Rightarrow> dataframe \<Rightarrow> error + dataframe" where
  "astype_str_cols L [] df = Inr df"
| "astype_str_cols L (col # cols) df =
     (if col \<notin> set (columns df) then Inl KeyError
      else astype_str_cols L cols (df\<lparr>rows := map (\<lambda>r. r(col := astype_str L (r col))) (rows df)\<rparr>))"

text \<open>
  The second loop, on the columns that are present:
  \<^verbatim>\<open>pd.to_numeric(df[col], errors='coerce').fillna(0).astype(int)\<close>.
\<close>

definition to_int_row :: "pylib \<Rightarrow> string \<Rightarrow> row \<Rightarrow> error + row" where
  "to_int_row L col r =
     (case fillna0_astype_int L (to_numeric L (r col)) of
        Inl e \<Rightarrow> Inl e
      | Inr v \<Rightarrow> Inr (r(col := v)))"

fun astype_int_cols :: "pylib \<Rightarrow> string list \<Rightarrow> dataframe \<Rightarrow> error + dataframe" where
  "astype_int_cols L [] df = Inr df"
| "astype_int_cols L (col # cols) df =
     (if col \<in> set (columns df) then
        (case traverse (to_int_row L col) (rows df) of
           Inl e \<Rightarrow> Inl e
         | Inr rs \<Rightarrow> astype_int_cols L cols (df\<lparr>rows := rs\<rparr>))
      else astype_int_cols L cols df)"

definition convert_data_types :: "pylib \<Rightarrow> dataframe \<Rightarrow> error + dataframe" where
  "convert_data_types L df =
     (case astype_str_cols L str_cols df of
        Inl e \<Rightarrow> Inl e
      | Inr df_clean \<Rightarrow> astype_int_cols L int_cols df_clean)"

subsection \<open>\<^verbatim>\<open>check_sequential_order\<close>\<close>

text \<open>
  The order in which \<^verbatim>\<open>df.sort_values(by)\<close> with several keys arranges the cells of one
  key column.  pandas ranks the cells of each key through an ordered categorical, whose
  categories it sorts with the numbers first, by value, then the strings, by code points; NaN
  has no category and comes last.
\<close>

fun sort_key_of :: "val \<Rightarrow> nat \<times> float64 \<times> string" where
  "sort_key_of (VInt i) = (0, float_of_int64 i, [])"
| "sort_key_of (VFloat x) = (0, x, [])"
| "sort_key_of (VStr s) = (1, Finite 0, s)"
| "sort_key_of VNaN = (2, Finite 0, [])"

fun is_str :: "val \<Rightarrow> bool" where
  "is_str (VStr s) = True"
| "is_str v = False"

fun is_number :: "val \<Rightarrow> bool" where
  "is_number (VInt i) = True"
| "is_number (VFloat x) = True"
| "is_number v = False"

definition row_key :: "string list \<Rightarrow> row \<Rightarrow> (nat \<times> float64 \<times> string) list" where
  "row_key by r = map (\<lambda>c. sort_key_of (r c)) by"

text \<open>
  \<^verbatim>\<open>df.sort_values(by)\<close> with several keys, as the source calls it: \<open>KeyError\<close> on an
  absent column, and otherwise a stable sort by the ranks of the keys in order.  (Only a sort by
  a single key compares the cells themselves and raises \<open>TypeError\<close> on a column that mixes
  strings and numbers.)
\<close>

definition sort_values :: "string list \<Rightarrow> dataframe \<Rightarrow> error + dataframe" where
  "sort_values by df =
     (if \<not> set by \<subseteq> set (columns df) then Inl KeyError
      else Inr (df\<lparr>rows := sort_key (row_key by) (rows df)\<rparr>))"

text \<open>
  \<^verbatim>\<open>df.groupby(by)\<close>: the rows of each key, in the frame's order; rows with NaN in a key
  column belong to no group.
\<close>

definition groupby :: "string list \<Rightarrow> dataframe \<Rightarrow> row list list" where
  "groupby by df =
     (let rs = filter (\<lambda>r. list_all (\<lambda>c. r c \<noteq> VNaN) by) (rows df)
      in map (\<lambda>k. filter (\<lambda>r. row_key by r = k) rs) (remdups (map (row_key by) rs)))"

text \<open>
  \<^verbatim>\<open>Series.is_monotonic_increasing\<close>: every cell is at least the one before it.  The
  answer is false when a NaN is present, and also when a string stands among numbers: comparing
  the two raises \<open>TypeError\<close> inside pandas, which catches it and answers false.
\<close>

definition is_monotonic_increasing :: "val list \<Rightarrow> bool" where
  "is_monotonic_increasing vs =
     ((list_all is_number vs \<or> list_all is_str vs) \<and> sorted (map sort_key_of vs))"

text \<open>
  The function returns the sorted frame and prints the number of groups that are not monotonic;
  the model returns both.
\<close>

definition count_issues :: "dataframe \<Rightarrow> nat" where
  "count_issues df_sorted =
     length (filter (\<lambda>group. \<not> is_monotonic_increasing (map (\<lambda>r. r ''ms_first_response'') group))
       (groupby [''user_id'', ''problem_id''] df_sorted))"

definition check_sequential_order :: "dataframe \<Rightarrow> error + (nat \<times> dataframe)" where
  "check_sequential_order df =
     (case sort_values [''user_id'', ''problem_id'', ''ms_first_response''] df of
        Inl e \<Rightarrow> Inl e
      | Inr df_sorted \<Rightarrow> Inr (count_issues df_sorted, df_sorted))"

subsection \<open>\<^verbatim>\<open>process_data\<close>\<close>

definition critical_columns :: "string list" where
  "critical_columns =
     [''user_id'', ''problem_id'', ''template_id'', ''skill_id'', ''skill_name'',
      ''teacher_id'', ''student_class_id'', ''school_id'', ''hint_count'', ''hint_total'']"

definition keep_cols :: "string list" where
  "keep_cols =
     [''user_id'', ''problem_id'', ''template_id'', ''skill_id'', ''skill_name'',
      ''teacher_id'', ''student_class_id'', ''school_id'',
      ''correct'', ''attempt_count'', ''ms_first_response'',
      ''hint_count'', ''hint_total'', ''hint_independence'']"

text \<open>
  \<^verbatim>\<open>df[keep_cols]\<close>: \<open>KeyError\<close> when a name is absent; the result has exactly the
  named columns, in the order named, and the cells of the other columns are gone.
\<close>

definition restrict_row :: "string list \<Rightarrow> row \<Rightarrow> row" where
  "restrict_row cs r = (\<lambda>c. if c \<in> set cs then r c else VNaN)"

definition select_columns :: "string list \<Rightarrow> dataframe \<Rightarrow> error + dataframe" where
  "select_columns cs df =
     (if \<not> set cs \<subseteq> set (columns df) then Inl KeyError
      else Inr (df\<lparr>columns := cs, rows := map (restrict_row cs) (rows df)\<rparr>))"

definition process_data :: "pylib \<Rightarrow> dataframe \<Rightarrow> error + dataframe" where
  "process_data L df =
     (case remove_missing_values L (remove_duplicates df) critical_columns of
        Inl e \<Rightarrow> Inl e
      | Inr df2 \<Rightarrow>
     (case fix_logic_errors df2 of
        Inl e \<Rightarrow> Inl e
      | Inr df3 \<Rightarrow>
     (case add_hint_independence (normalize_response_time L df3 default_max_seconds) of
        Inl e \<Rightarrow> Inl e
      | Inr df5 \<Rightarrow>
     (case convert_data_types L df5 of
        Inl e \<Rightarrow> Inl e
      | Inr df6 \<Rightarrow>
     (case check_sequential_order df6 of
        Inl e \<Rightarrow> Inl e
      | Inr (issues, df7) \<Rightarrow> select_columns keep_cols df7)))))"

subsection \<open>A concrete library for running the model\<close>

text \<open>
  Plain decimal literals: an optional sign and digits for \<^verbatim>\<open>int(s)\<close>; for
  \<^verbatim>\<open>to_numeric\<close> the same and the two infinities (fractions and exponents are not needed
  by the examples).  Whole floats print as Python prints them, with \<open>.0\<close>.
\<close>

definition digit_val :: "char \<Rightarrow> nat option" where
  "digit_val c = (let n = of_char c :: nat in if 48 \<le> n \<and> n \<le> 57 then Some (n - 48) else None)"

fun nat_of_digits :: "nat \<Rightarrow> string \<Rightarrow> nat option" where
  "nat_of_digits acc [] = Some acc"
| "nat_of_digits acc (c # cs) =
     (case digit_val c of None \<Rightarrow> None | Some d \<Rightarrow> nat_of_digits (10 * acc + d) cs)"

fun int_literal :: "string \<Rightarrow> int option" where
  "int_literal [] = None"
| "int_literal (c # cs) =
     (if c = CHR ''-'' \<and> cs \<noteq> [] then map_option (\<lambda>n. - int n) (nat_of_digits 0 cs)
      else if c = CHR ''+'' \<and> cs \<noteq> [] then map_option int (nat_of_digits 0 cs)
      else map_option int (nat_of_digits 0 (c # cs)))"

definition simple_lib :: pylib where
  "simple_lib =
     \<lparr>int_of_str = (\<lambda>s. case int_literal s of
          None \<Rightarrow> Inl ValueError
        | Some i \<Rightarrow> if - (2 ^ 63) \<le> i \<and> i < 2 ^ 63 then Inr (word_of_int i) else Inl OverflowError),
      numeric_of_str = (\<lambda>s.
          if s = ''inf'' then Some PosInf
          else if s = ''-inf'' then Some NegInf
          else map_option (\<lambda>i. Finite (of_int i)) (int_literal s)),
      str_of_float = (\<lambda>q. str_of_int (trunc q) @ ''.0'')\<rparr>"

section \<open>Closed forms of the stages\<close>

text \<open>
  Each stage that runs a fallible cell function over the rows is rewritten as a check on the rows
  followed by a total row function; the pipeline then has one closed form.  When the check fails,
  the error is the one of the first row that fails it.
\<close>

lemma traverse_if:
  "traverse (\<lambda>x. if ok x then Inr (g x) else Inl (e x)) xs =
     (if list_all ok xs then Inr (map g xs) else Inl (e (hd (filter (\<lambda>x. \<not> ok x) xs))))"
  by (induction xs) auto

lemma traverse_cong_if:
  assumes "\<And>x. f x = (if ok x then Inr (g x) else Inl (e x))"
  shows "traverse f xs =
    (if list_all ok xs then Inr (map g xs) else Inl (e (hd (filter (\<lambda>x. \<not> ok x) xs))))"
proof -
  have "f = (\<lambda>x. if ok x then Inr (g x) else Inl (e x))"
    using assms by (intro ext)
  then show ?thesis by (simp only: traverse_if)
qed

text \<open>
  \<^verbatim>\<open>.fillna(0).astype(int)\<close> split into its check, its value and its error: a cell can be
  cast unless it is an infinite float or a string that \<^verbatim>\<open>int()\<close> rejects.
\<close>

definition int_castable :: "pylib \<Rightarrow> val \<Rightarrow> bool" where
  "int_castable L v =
     (case v of
        VStr s \<Rightarrow> (case int_of_str L s of Inl e \<Rightarrow> False | Inr i \<Rightarrow> True)
      | VFloat x \<Rightarrow> x \<noteq> PosInf \<and> x \<noteq> NegInf
      | _ \<Rightarrow> True)"

definition int_cast :: "pylib \<Rightarrow> val \<Rightarrow> 64 word" where
  "int_cast L v =
     (case v of
        VInt i \<Rightarrow> i
      | VFloat x \<Rightarrow> (case x of Finite q \<Rightarrow> float_to_int64 q | _ \<Rightarrow> 0)
      | VStr s \<Rightarrow> (case int_of_str L s of Inl e \<Rightarrow> 0 | Inr i \<Rightarrow> i)
      | VNaN \<Rightarrow> 0)"

definition cast_error :: "pylib \<Rightarrow> val \<Rightarrow> error" where
  "cast_error L v =
     (case v of VStr s \<Rightarrow> (case int_of_str L s of Inl e \<Rightarrow> e | Inr i \<Rightarrow> ValueError) | _ \<Rightarrow> ValueError)"

lemma fillna0_astype_int_eq:
  "fillna0_astype_int L v =
     (if int_castable L v then Inr (VInt (int_cast L v)) else Inl (cast_error L v))"
proof (cases v)
  case (VFloat x)
  then show ?thesis
    by (cases x) (simp_all add: int_castable_def int_cast_def cast_error_def)
qed (auto simp: int_castable_def int_cast_def cast_error_def split: sum.splits)

text \<open>A row is complete on the named columns when none of those cells is missing.\<close>

definition complete :: "string list \<Rightarrow> row \<Rightarrow> bool" where
  "complete cs r = list_all (\<lambda>c. r c \<noteq> VNaN) cs"

text \<open>The total row functions of \<open>remove_missing_values\<close> and \<open>fix_logic_errors\<close>.\<close>

definition fill_correct :: "pylib \<Rightarrow> row \<Rightarrow> row" where
  "fill_correct L r = r(''correct'' := VInt (int_cast L (r ''correct'')))"

lemma fill_correct_row_eq:
  "fill_correct_row L r =
     (if int_castable L (r ''correct'') then Inr (fill_correct L r)
      else Inl (cast_error L (r ''correct'')))"
  by (simp add: fill_correct_row_def fillna0_astype_int_eq fill_correct_def)

lemma remove_missing_values_eq:
  "remove_missing_values L df cs =
     (if \<not> set cs \<subseteq> set (columns df) then Inl KeyError
      else if ''correct'' \<in> set (columns df) then
        (if list_all (\<lambda>r. int_castable L (r ''correct'')) (filter (complete cs) (rows df))
         then Inr (df\<lparr>rows := map (fill_correct L) (filter (complete cs) (rows df))\<rparr>)
         else Inl (cast_error L
           (hd (filter (\<lambda>r. \<not> int_castable L (r ''correct'')) (filter (complete cs) (rows df)))
              ''correct'')))
      else Inr (df\<lparr>rows := filter (complete cs) (rows df)\<rparr>))"
  by (simp add: remove_missing_values_def dropna_def traverse_cong_if [OF fill_correct_row_eq]
      complete_def [abs_def])

text \<open>Two cells can be compared with \<^verbatim>\<open>>\<close> unless exactly one of them is a string.\<close>

definition comparable :: "val \<Rightarrow> val \<Rightarrow> bool" where
  "comparable a b = (a = VNaN \<or> b = VNaN \<or> is_str a = is_str b)"

definition clamp_hint :: "row \<Rightarrow> row" where
  "clamp_hint r =
     (if val_gt (r ''hint_count'') (r ''hint_total'') = Inr True
      then r(''hint_count'' := r ''hint_total'') else r)"

lemma val_gt_eq:
  "val_gt a b = (if comparable a b then Inr (val_gt a b = Inr True) else Inl TypeError)"
  by (cases a; cases b) (auto simp: comparable_def)

lemma clamp_hint_row_eq:
  "clamp_hint_row r =
     (if comparable (r ''hint_count'') (r ''hint_total'') then Inr (clamp_hint r) else Inl TypeError)"
  unfolding clamp_hint_row_def clamp_hint_def
  by (subst val_gt_eq) (auto split: sum.splits)

definition fix_correct :: "string list \<Rightarrow> row \<Rightarrow> row" where
  "fix_correct cs r =
     (if ''correct'' \<in> set cs then r(''correct'' := coerce_correct (r ''correct'')) else r)"

lemma fix_logic_errors_eq:
  "fix_logic_errors df =
     (if ''hint_count'' \<notin> set (columns df) \<or> ''hint_total'' \<notin> set (columns df) then Inl KeyError
      else if list_all (\<lambda>r. comparable (r ''hint_count'') (r ''hint_total'')) (rows df)
      then Inr (df\<lparr>rows := map (fix_correct (columns df) \<circ> clamp_hint) (rows df)\<rparr>)
      else Inl TypeError)"
  by (auto simp add: fix_logic_errors_def traverse_cong_if [OF clamp_hint_row_eq] fix_correct_def)

text \<open>The row functions of \<open>normalize_response_time\<close> and \<open>add_hint_independence\<close>; two
  cells can be divided unless one of them is a string.\<close>

definition normalize_row :: "pylib \<Rightarrow> 64 word \<Rightarrow> row \<Rightarrow> row" where
  "normalize_row L m r =
     r(''ms_first_response'' := clamp_max m (fillna0 (to_numeric L (r ''ms_first_response''))))"

definition divisible :: "val \<Rightarrow> val \<Rightarrow> bool" where
  "divisible a b = (\<not> is_str a \<and> \<not> is_str b)"

definition hint_independence :: "row \<Rightarrow> row" where
  "hint_independence r =
     r(''hint_independence'' :=
        (case val_div (r ''hint_count'') (replace01 (r ''hint_total'')) of
           Inr x \<Rightarrow> rsub1 x | Inl e \<Rightarrow> VNaN))"

lemma val_div_Inl: "val_div a b = Inl e \<longleftrightarrow> e = TypeError \<and> \<not> divisible a b"
  by (cases a; cases b) (auto simp: divisible_def)

lemma is_str_replace01 [simp]: "is_str (replace01 v) = is_str v"
  by (cases v) auto

lemma hint_independence_row_eq:
  "hint_independence_row r =
     (if divisible (r ''hint_count'') (r ''hint_total'') then Inr (hint_independence r)
      else Inl TypeError)"
proof (cases "val_div (r ''hint_count'') (replace01 (r ''hint_total''))")
  case (Inl e)
  then have "e = TypeError" and "\<not> divisible (r ''hint_count'') (r ''hint_total'')"
    by (simp_all add: val_div_Inl divisible_def)
  with Inl show ?thesis
    by (simp add: hint_independence_row_def)
next
  case (Inr x)
  have "divisible (r ''hint_count'') (r ''hint_total'')"
    using val_div_Inl [of "r ''hint_count''" "replace01 (r ''hint_total'')" TypeError] Inr
    by (simp add: divisible_def)
  with Inr show ?thesis
    by (simp add: hint_independence_row_def hint_independence_def)
qed

lemma add_hint_independence_eq:
  "add_hint_independence df =
     (if ''hint_count'' \<notin> set (columns df) \<or> ''hint_total'' \<notin> set (columns df) then Inl KeyError
      else if list_all (\<lambda>r. divisible (r ''hint_count'') (r ''hint_total'')) (rows df)
      then Inr (df\<lparr>columns := with_column ''hint_independence'' (columns df),
                   rows := map hint_independence (rows df)\<rparr>)
      else Inl TypeError)"
  by (simp add: add_hint_independence_def traverse_cong_if [OF hint_independence_row_eq])

text \<open>
  \<^verbatim>\<open>pd.to_numeric(..., errors='coerce').fillna(0).astype(int)\<close> on one cell raises only on an
  infinity, and then it is \<open>ValueError\<close>; otherwise its value is \<open>to_int\<close>.
\<close>

definition int_parsable :: "pylib \<Rightarrow> val \<Rightarrow> bool" where
  "int_parsable L v = (to_numeric L v \<noteq> VFloat PosInf \<and> to_numeric L v \<noteq> VFloat NegInf)"

definition to_int :: "pylib \<Rightarrow> val \<Rightarrow> val" where
  "to_int L v = VInt (int_cast L (to_numeric L v))"

lemma fillna0_astype_int_to_numeric:
  "fillna0_astype_int L (to_numeric L v) =
     (if int_parsable L v then Inr (to_int L v) else Inl ValueError)"
proof (cases "to_numeric L v")
  case (VFloat x)
  then show ?thesis
    by (cases x) (simp_all add: int_parsable_def to_int_def int_cast_def)
next
  case (VStr s)
  then show ?thesis
    by (cases v) (simp_all split: option.splits)
qed (simp_all add: int_parsable_def to_int_def int_cast_def)

lemma to_int_row_eq:
  "to_int_row L c r = (if int_parsable L (r c) then Inr (r(c := to_int L (r c))) else Inl ValueError)"
  by (simp add: to_int_row_def fillna0_astype_int_to_numeric)

lemma traverse_total: "(\<And>x. f x = Inr (g x)) \<Longrightarrow> traverse f xs = Inr (map g xs)"
  by (induction xs) auto

definition cast_cols :: "(val \<Rightarrow> val) \<Rightarrow> string list \<Rightarrow> row \<Rightarrow> row" where
  "cast_cols f cs r = (\<lambda>c. if c \<in> set cs then f (r c) else r c)"

lemma cast_cols_Nil [simp]: "cast_cols f [] = (\<lambda>r. r)"
  by (simp add: cast_cols_def fun_eq_iff)

lemma cast_cols_Cons:
  "f \<circ> f = f \<Longrightarrow> cast_cols f cs (r(c := f (r c))) = cast_cols f (c # cs) r"
  by (auto simp: cast_cols_def fun_eq_iff dest: fun_cong [of "f \<circ> f" f])

lemma astype_str_idem: "astype_str L \<circ> astype_str L = astype_str L"
proof
  fix v show "(astype_str L \<circ> astype_str L) v = astype_str L v"
  proof (cases v)
    case (VFloat x)
    then show ?thesis by (cases x) simp_all
  qed simp_all
qed

lemma to_int_idem: "to_int L \<circ> to_int L = to_int L"
  by (rule ext) (simp add: to_int_def int_cast_def)

lemma int_parsable_to_int [simp]: "int_parsable L (to_int L v)"
  by (simp add: int_parsable_def to_int_def)

lemma astype_str_cols_eq:
  "astype_str_cols L cs df =
     (if set cs \<subseteq> set (columns df)
      then Inr (df\<lparr>rows := map (cast_cols (astype_str L) cs) (rows df)\<rparr>)
      else Inl KeyError)"
proof (induction cs arbitrary: df)
  case Nil
  then show ?case by simp
next
  case (Cons c cs)
  show ?case
    by (simp add: Cons.IH cast_cols_Cons [OF astype_str_idem] comp_def)
qed

text \<open>A row can go through the second loop when each of the named cells can.\<close>

definition int_parsable_row :: "pylib \<Rightarrow> string list \<Rightarrow> row \<Rightarrow> bool" where
  "int_parsable_row L cs r = list_all (\<lambda>c. int_parsable L (r c)) cs"

lemma int_parsable_row_Cons:
  "int_parsable_row L (c # cs) r \<longleftrightarrow>
     int_parsable L (r c) \<and> int_parsable_row L cs (r(c := to_int L (r c)))"
  by (auto simp: int_parsable_row_def list_all_iff)

lemma astype_int_cols_eq:
  "astype_int_cols L cs df =
     (if list_all (int_parsable_row L (filter (\<lambda>c. c \<in> set (columns df)) cs)) (rows df)
      then Inr (df\<lparr>rows :=
        map (cast_cols (to_int L) (filter (\<lambda>c. c \<in> set (columns df)) cs)) (rows df)\<rparr>)
      else Inl ValueError)"
proof (induction cs arbitrary: df)
  case Nil
  then show ?case by (simp add: int_parsable_row_def list_all_iff)
next
  case (Cons c cs)
  show ?case
  proof (cases "c \<in> set (columns df)")
    case False
    then show ?thesis by (simp add: Cons.IH)
  next
    case True
    let ?cs = "filter (\<lambda>c. c \<in> set (columns df)) cs"
    have split: "list_all (int_parsable_row L (c # ?cs)) (rows df) \<longleftrightarrow>
        list_all (\<lambda>r. int_parsable L (r c)) (rows df) \<and>
        list_all (int_parsable_row L ?cs) (map (\<lambda>r. r(c := to_int L (r c))) (rows df))"
      by (auto simp: list_all_iff int_parsable_row_Cons)
    show ?thesis
    proof (cases "list_all (\<lambda>r. int_parsable L (r c)) (rows df)")
      case False
      with True split show ?thesis
        by (simp add: traverse_cong_if [OF to_int_row_eq])
    next
      case ok: True
      with True split show ?thesis
        by (simp add: traverse_cong_if [OF to_int_row_eq] Cons.IH
            cast_cols_Cons [OF to_int_idem] comp_def)
    qed
  qed
qed

definition convert_row :: "pylib \<Rightarrow> string list \<Rightarrow> row \<Rightarrow> row" where
  "convert_row L cols =
     cast_cols (to_int L) (filter (\<lambda>c. c \<in> set cols) int_cols) \<circ> cast_cols (astype_str L) str_cols"

lemma str_int_cols_disjoint: "c \<in> set str_cols \<Longrightarrow> c \<notin> set int_cols"
  by (auto simp: str_cols_def int_cols_def)

lemma int_parsable_row_str_cols:
  "set cs \<subseteq> set int_cols \<Longrightarrow>
   int_parsable_row L cs (cast_cols (astype_str L) str_cols r) = int_parsable_row L cs r"
  using str_int_cols_disjoint
  by (auto simp: int_parsable_row_def cast_cols_def list_all_iff)

lemma convert_data_types_eq:
  "convert_data_types L df =
     (if \<not> set str_cols \<subseteq> set (columns df) then Inl KeyError
      else if list_all (int_parsable_row L (filter (\<lambda>c. c \<in> set (columns df)) int_cols)) (rows df)
      then Inr (df\<lparr>rows := map (convert_row L (columns df)) (rows df)\<rparr>)
      else Inl ValueError)"
proof -
  have "list_all (int_parsable_row L (filter (\<lambda>c. c \<in> set (columns df)) int_cols))
      (map (cast_cols (astype_str L) str_cols) (rows df)) =
    list_all (int_parsable_row L (filter (\<lambda>c. c \<in> set (columns df)) int_cols)) (rows df)"
    by (simp add: list_all_iff int_parsable_row_str_cols)
  then show ?thesis
    by (simp add: convert_data_types_def astype_str_cols_eq astype_int_cols_eq convert_row_def)
qed

lemma convert_row_apply:
  "convert_row L cols r c =
     (if c \<in> set str_cols then astype_str L (r c)
      else if c \<in> set int_cols \<and> c \<in> set cols then to_int L (r c)
      else r c)"
  using str_int_cols_disjoint [of c]
  by (simp add: convert_row_def cast_cols_def)
text \<open>
  The pipeline on a frame that has all thirteen input columns: the rows that survive
  deduplication and the completeness filter, and what stages 2 to 6 make of one of them.
\<close>

definition coerce_row :: "row \<Rightarrow> row" where
  "coerce_row r = r(''correct'' := coerce_correct (r ''correct''))"

lemma fix_correct_present: "''correct'' \<in> set cs \<Longrightarrow> fix_correct cs = coerce_row"
  by (simp add: fix_correct_def coerce_row_def fun_eq_iff)

definition input_cols :: "string list" where
  "input_cols = critical_columns @ [''correct'', ''attempt_count'', ''ms_first_response'']"

definition survivors :: "dataframe \<Rightarrow> row list" where
  "survivors df = filter (complete critical_columns) (rows (remove_duplicates df))"

lemma columns_remove_duplicates [simp]: "columns (remove_duplicates df) = columns df"
  by (simp add: remove_duplicates_def drop_duplicates_def)

lemma filter_int_cols_present:
  "set int_cols \<subseteq> set cols \<Longrightarrow> filter (\<lambda>c. c \<in> set cols) int_cols = int_cols"
  by (auto simp: filter_id_conv)

lemma convert_row_present:
  "set int_cols \<subseteq> set cols \<Longrightarrow> convert_row L cols = convert_row L int_cols"
  by (simp add: convert_row_def filter_int_cols_present)

lemma is_str_astype_str [simp]: "is_str (astype_str L v)"
proof (cases v)
  case (VFloat x)
  then show ?thesis by (cases x) simp_all
qed simp_all

lemma is_number_to_int [simp]: "is_number (to_int L v)"
  by (simp add: to_int_def)

lemma input_cols_mem:
  assumes "set input_cols \<subseteq> set cs"
  shows "set critical_columns \<subseteq> set cs" "set str_cols \<subseteq> set cs" "set int_cols \<subseteq> set cs"
    "''hint_count'' \<in> set cs" "''hint_total'' \<in> set cs" "''correct'' \<in> set cs"
    "''attempt_count'' \<in> set cs" "''ms_first_response'' \<in> set cs"
    "''user_id'' \<in> set cs" "''problem_id'' \<in> set cs"
  using assms by (auto simp: input_cols_def critical_columns_def str_cols_def int_cols_def)

lemma keep_cols_subset:
  "set input_cols \<subseteq> set cs \<Longrightarrow> set keep_cols \<subseteq> set (with_column ''hint_independence'' cs)"
  by (auto simp: input_cols_def critical_columns_def keep_cols_def with_column_def)

lemma complete_hint:
  "complete critical_columns r \<Longrightarrow> r ''hint_count'' \<noteq> VNaN \<and> r ''hint_total'' \<noteq> VNaN"
  by (simp add: complete_def critical_columns_def)

lemma hint_typing:
  assumes "a \<noteq> VNaN" "b \<noteq> VNaN"
  shows "comparable a b \<and> divisible (if val_gt a b = Inr True then b else a) b
           \<longleftrightarrow> is_number a \<and> is_number b"
  using assms by (cases a; cases b) (auto simp: comparable_def divisible_def)

text \<open>The sort key of \<open>check_sequential_order\<close>.\<close>

definition order_cols :: "string list" where
  "order_cols = [''user_id'', ''problem_id'', ''ms_first_response'']"

lemma remove_missing_values_pipeline:
  assumes "set input_cols \<subseteq> set (columns df)"
  shows "remove_missing_values L (remove_duplicates df) critical_columns =
     (if list_all (\<lambda>r. int_castable L (r ''correct'')) (survivors df)
      then Inr \<lparr>columns = columns df, rows = map (fill_correct L) (survivors df)\<rparr>
      else Inl (cast_error L
        (hd (filter (\<lambda>r. \<not> int_castable L (r ''correct'')) (survivors df)) ''correct'')))"
  using input_cols_mem [OF assms]
  by (simp add: remove_missing_values_eq survivors_def)

lemma fix_logic_errors_pipeline:
  assumes "set input_cols \<subseteq> set cs"
  shows "fix_logic_errors \<lparr>columns = cs, rows = rs\<rparr> =
     (if list_all (\<lambda>r. comparable (r ''hint_count'') (r ''hint_total'')) rs
      then Inr \<lparr>columns = cs, rows = map (\<lambda>r. coerce_row (clamp_hint r)) rs\<rparr>
      else Inl TypeError)"
  using input_cols_mem [OF assms]
  by (simp add: fix_logic_errors_eq fix_correct_present comp_def)

lemma normalize_response_time_pipeline:
  assumes "set input_cols \<subseteq> set cs"
  shows "normalize_response_time L \<lparr>columns = cs, rows = rs\<rparr> m =
     \<lparr>columns = cs, rows = map (normalize_row L m) rs\<rparr>"
  using input_cols_mem [OF assms]
  by (simp add: normalize_response_time_def normalize_row_def [abs_def])

lemma add_hint_independence_pipeline:
  assumes "set input_cols \<subseteq> set cs"
  shows "add_hint_independence \<lparr>columns = cs, rows = rs\<rparr> =
     (if list_all (\<lambda>r. divisible (r ''hint_count'') (r ''hint_total'')) rs
      then Inr \<lparr>columns = with_column ''hint_independence'' cs, rows = map hint_independence rs\<rparr>
      else Inl TypeError)"
  using input_cols_mem [OF assms]
  by (simp add: add_hint_independence_eq)

lemma convert_data_types_pipeline:
  assumes "set input_cols \<subseteq> set cs"
  shows "convert_data_types L \<lparr>columns = with_column ''hint_independence'' cs, rows = rs\<rparr> =
     (if list_all (int_parsable_row L int_cols) rs
      then Inr \<lparr>columns = with_column ''hint_independence'' cs,
                rows = map (convert_row L int_cols) rs\<rparr>
      else Inl ValueError)"
proof -
  have "set str_cols \<subseteq> set (with_column ''hint_independence'' cs)"
    and "set int_cols \<subseteq> set (with_column ''hint_independence'' cs)"
    using input_cols_mem(2,3) [OF assms] by (auto simp: with_column_def)
  then show ?thesis
    by (simp add: convert_data_types_eq filter_int_cols_present
        convert_row_present [of "with_column ''hint_independence'' cs"])
qed

lemma check_sequential_order_pipeline:
  assumes "set input_cols \<subseteq> set cs"
  shows "\<exists>n. check_sequential_order
       \<lparr>columns = with_column ''hint_independence'' cs, rows = rs\<rparr> =
     Inr (n, \<lparr>columns = with_column ''hint_independence'' cs,
              rows = sort_key (row_key order_cols) rs\<rparr>)"
proof -
  have "set order_cols \<subseteq> set (with_column ''hint_independence'' cs)"
    using input_cols_mem(8,9,10) [OF assms] by (auto simp: with_column_def order_cols_def)
  then show ?thesis
    by (simp add: check_sequential_order_def sort_values_def order_cols_def [symmetric])
qed

lemma select_columns_pipeline:
  assumes "set input_cols \<subseteq> set cs"
  shows "select_columns keep_cols \<lparr>columns = with_column ''hint_independence'' cs, rows = rs\<rparr> =
     Inr \<lparr>columns = keep_cols, rows = map (restrict_row keep_cols) rs\<rparr>"
  using keep_cols_subset [OF assms] by (simp add: select_columns_def)

text \<open>
  One row through stages 2 to 5 (\<open>prepare\<close>), and then through the type coercion
  (\<open>repair\<close>).
\<close>

definition prepare :: "pylib \<Rightarrow> row \<Rightarrow> row" where
  "prepare L r =
     hint_independence
       (normalize_row L default_max_seconds (coerce_row (clamp_hint (fill_correct L r))))"

definition repair :: "pylib \<Rightarrow> row \<Rightarrow> row" where
  "repair L r = convert_row L int_cols (prepare L r)"

lemma fill_correct_other: "c \<noteq> ''correct'' \<Longrightarrow> fill_correct L r c = r c"
  by (simp add: fill_correct_def)

lemma coerce_row_other: "c \<noteq> ''correct'' \<Longrightarrow> coerce_row r c = r c"
  by (simp add: coerce_row_def)

lemma normalize_row_other: "c \<noteq> ''ms_first_response'' \<Longrightarrow> normalize_row L m r c = r c"
  by (simp add: normalize_row_def)

lemma hint_independence_other: "c \<noteq> ''hint_independence'' \<Longrightarrow> hint_independence r c = r c"
  by (simp add: hint_independence_def)

lemma clamp_hint_count:
  "clamp_hint r ''hint_count'' =
     (if val_gt (r ''hint_count'') (r ''hint_total'') = Inr True then r ''hint_total''
      else r ''hint_count'')"
  by (simp add: clamp_hint_def)

lemma clamp_hint_other: "c \<noteq> ''hint_count'' \<Longrightarrow> clamp_hint r c = r c"
  by (simp add: clamp_hint_def)

lemma survivors_hint:
  "r \<in> set (survivors df) \<Longrightarrow> r ''hint_count'' \<noteq> VNaN \<and> r ''hint_total'' \<noteq> VNaN"
  using complete_hint by (simp add: survivors_def)

lemma hint_typing_all:
  "list_all (\<lambda>r. comparable (r ''hint_count'') (r ''hint_total'')) (survivors df) \<and>
   list_all (\<lambda>r. divisible
            (if val_gt (r ''hint_count'') (r ''hint_total'') = Inr True
             then r ''hint_total'' else r ''hint_count'') (r ''hint_total'')) (survivors df)
   \<longleftrightarrow> list_all (\<lambda>r. is_number (r ''hint_count'') \<and> is_number (r ''hint_total'')) (survivors df)"
  (is "?A \<and> ?B \<longleftrightarrow> ?C")
proof
  assume ab: "?A \<and> ?B"
  show ?C
    unfolding list_all_iff
  proof
    fix r assume r: "r \<in> set (survivors df)"
    with ab have "comparable (r ''hint_count'') (r ''hint_total'')"
      and "divisible (if val_gt (r ''hint_count'') (r ''hint_total'') = Inr True
             then r ''hint_total'' else r ''hint_count'') (r ''hint_total'')"
      by (simp_all add: list_all_iff)
    then show "is_number (r ''hint_count'') \<and> is_number (r ''hint_total'')"
      using hint_typing [of "r ''hint_count''" "r ''hint_total''"] survivors_hint [OF r] by simp
  qed
next
  assume c: ?C
  have "comparable (r ''hint_count'') (r ''hint_total'') \<and>
        divisible (if val_gt (r ''hint_count'') (r ''hint_total'') = Inr True
             then r ''hint_total'' else r ''hint_count'') (r ''hint_total'')"
    if r: "r \<in> set (survivors df)" for r
  proof -
    from c r have "is_number (r ''hint_count'') \<and> is_number (r ''hint_total'')"
      by (simp add: list_all_iff)
    then show ?thesis
      using hint_typing [of "r ''hint_count''" "r ''hint_total''"] survivors_hint [OF r] by simp
  qed
  then show "?A \<and> ?B" by (simp add: list_all_iff)
qed

text \<open>
  The pipeline raises in three places: the cast of \<open>correct\<close> in \<open>remove_missing_values\<close>, the
  comparison and the division of the hint cells in \<open>fix_logic_errors\<close> and
  \<open>add_hint_independence\<close>, and the integer cast of an infinity in \<open>convert_data_types\<close>.
\<close>

lemma process_data_eq:
  assumes "set input_cols \<subseteq> set (columns df)"
  shows "process_data L df =
     (if \<not> list_all (\<lambda>r. int_castable L (r ''correct'')) (survivors df)
      then Inl (cast_error L
        (hd (filter (\<lambda>r. \<not> int_castable L (r ''correct'')) (survivors df)) ''correct''))
      else if \<not> list_all (\<lambda>r. is_number (r ''hint_count'') \<and> is_number (r ''hint_total'')) (survivors df)
      then Inl TypeError
      else if \<not> list_all (\<lambda>r. int_parsable_row L int_cols (prepare L r)) (survivors df)
      then Inl ValueError
      else Inr \<lparr>columns = keep_cols,
             rows = map (restrict_row keep_cols)
               (sort_key (row_key order_cols) (map (repair L) (survivors df)))\<rparr>)"
proof -
  let ?S = "survivors df" and ?cs = "columns df"
  let ?R2 = "map (fill_correct L) ?S"
  let ?R3 = "map (\<lambda>r. coerce_row (clamp_hint r)) ?R2"
  let ?R4 = "map (normalize_row L default_max_seconds) ?R3"
  let ?R5 = "map hint_independence ?R4"
  let ?R6 = "map (convert_row L int_cols) ?R5"
  let ?cs5 = "with_column ''hint_independence'' ?cs"
  let ?cmp = "list_all (\<lambda>r. comparable (r ''hint_count'') (r ''hint_total'')) ?R2"
  let ?div = "list_all (\<lambda>r. divisible (r ''hint_count'') (r ''hint_total'')) ?R4"
  let ?num = "list_all (\<lambda>r. is_number (r ''hint_count'') \<and> is_number (r ''hint_total'')) ?S"
  let ?fin = "list_all (int_parsable_row L int_cols) ?R5"
  have s2: "remove_missing_values L (remove_duplicates df) critical_columns =
      (if list_all (\<lambda>r. int_castable L (r ''correct'')) ?S
       then Inr \<lparr>columns = ?cs, rows = ?R2\<rparr>
       else Inl (cast_error L
        (hd (filter (\<lambda>r. \<not> int_castable L (r ''correct'')) ?S) ''correct'')))"
    by (rule remove_missing_values_pipeline [OF assms])
  have s3: "fix_logic_errors \<lparr>columns = ?cs, rows = ?R2\<rparr> =
      (if ?cmp then Inr \<lparr>columns = ?cs, rows = ?R3\<rparr> else Inl TypeError)"
    by (rule fix_logic_errors_pipeline [OF assms])
  have s4: "normalize_response_time L \<lparr>columns = ?cs, rows = ?R3\<rparr> default_max_seconds =
      \<lparr>columns = ?cs, rows = ?R4\<rparr>"
    by (rule normalize_response_time_pipeline [OF assms])
  have s5: "add_hint_independence \<lparr>columns = ?cs, rows = ?R4\<rparr> =
      (if ?div then Inr \<lparr>columns = ?cs5, rows = ?R5\<rparr> else Inl TypeError)"
    by (rule add_hint_independence_pipeline [OF assms])
  have s6: "convert_data_types L \<lparr>columns = ?cs5, rows = ?R5\<rparr> =
      (if ?fin then Inr \<lparr>columns = ?cs5, rows = ?R6\<rparr> else Inl ValueError)"
    by (rule convert_data_types_pipeline [OF assms])
  obtain n where s7: "check_sequential_order \<lparr>columns = ?cs5, rows = ?R6\<rparr> =
      Inr (n, \<lparr>columns = ?cs5, rows = sort_key (row_key order_cols) ?R6\<rparr>)"
    using check_sequential_order_pipeline [OF assms] by blast
  have s8: "select_columns keep_cols \<lparr>columns = ?cs5, rows = sort_key (row_key order_cols) ?R6\<rparr> =
      Inr \<lparr>columns = keep_cols, rows = map (restrict_row keep_cols) (sort_key (row_key order_cols) ?R6)\<rparr>"
    by (rule select_columns_pipeline [OF assms])
  have R6: "?R6 = map (repair L) ?S"
    by (simp add: repair_def [abs_def] prepare_def [abs_def] comp_def)
  have fin_eq: "?fin \<longleftrightarrow> list_all (\<lambda>r. int_parsable_row L int_cols (prepare L r)) ?S"
    by (simp add: prepare_def [abs_def] comp_def list_all_iff)
  have cmp_eq: "?cmp \<longleftrightarrow> list_all (\<lambda>r. comparable (r ''hint_count'') (r ''hint_total'')) ?S"
    by (simp add: list_all_iff fill_correct_other)
  have div_eq: "?div \<longleftrightarrow> list_all (\<lambda>r. divisible
        (if val_gt (r ''hint_count'') (r ''hint_total'') = Inr True
         then r ''hint_total'' else r ''hint_count'') (r ''hint_total'')) ?S"
    by (simp add: list_all_iff normalize_row_other coerce_row_other clamp_hint_other
        clamp_hint_count fill_correct_other)
  have typing: "?cmp \<and> ?div \<longleftrightarrow> ?num"
    unfolding cmp_eq div_eq by (rule hint_typing_all)
  show ?thesis
  proof (cases "list_all (\<lambda>r. int_castable L (r ''correct'')) ?S")
    case False
    then show ?thesis by (simp add: process_data_def s2)
  next
    case cast: True
    show ?thesis
    proof (cases ?cmp)
      case False
      with typing have "\<not> ?num" by blast
      with cast False show ?thesis by (simp add: process_data_def s2 s3 del: map_map)
    next
      case cmp: True
      show ?thesis
      proof (cases ?div)
        case False
        with typing cmp have "\<not> ?num" by blast
        with cast cmp False show ?thesis by (simp add: process_data_def s2 s3 s4 s5 del: map_map)
      next
        case div: True
        with typing cmp have num: "?num" by blast
        show ?thesis
        proof (cases ?fin)
          case False
          with fin_eq have "\<not> list_all (\<lambda>r. int_parsable_row L int_cols (prepare L r)) ?S"
            by blast
          with cast cmp div num False show ?thesis
            by (simp add: process_data_def s2 s3 s4 s5 s6 del: map_map)
        next
          case True
          with fin_eq have "list_all (\<lambda>r. int_parsable_row L int_cols (prepare L r)) ?S"
            by blast
          with cast cmp div num True show ?thesis
            by (simp add: process_data_def s2 s3 s4 s5 s6 s7 [unfolded R6] s8 [unfolded R6] R6
                del: map_map)
        qed
      qed
    qed
  qed
qed

section \<open>What the pipeline returns, row by row\<close>

subsection \<open>Casting to \<^verbatim>\<open>int64\<close>\<close>

lemma word_of_int_sint_64: "word_of_int (sint w) = w" for w :: "64 word"
  by simp

text \<open>The value of an integer cell is kept in the form \<open>of_int (sint w)\<close>.\<close>

declare of_int_sint [simp del]

lemma trunc_of_int [simp]: "trunc (of_int i) = i"
  by (simp add: trunc_def)

lemma trunc_numeral [simp]: "trunc (numeral n) = numeral n" "trunc 0 = 0" "trunc 1 = 1"
  using trunc_of_int [of "numeral n"] trunc_of_int [of 0] trunc_of_int [of 1] by simp_all

lemma trunc_mono: "p \<le> q \<Longrightarrow> trunc p \<le> trunc q"
proof -
  assume pq: "p \<le> q"
  show ?thesis
  proof (cases "0 \<le> p")
    case True
    with pq show ?thesis by (simp add: trunc_def floor_mono)
  next
    case p: False
    show ?thesis
    proof (cases "0 \<le> q")
      case True
      have "\<lceil>p\<rceil> \<le> 0" using p by (simp add: ceiling_le_iff)
      moreover have "0 \<le> \<lfloor>q\<rfloor>" using True by simp
      ultimately have "\<lceil>p\<rceil> \<le> \<lfloor>q\<rfloor>" by linarith
      then show ?thesis using p True by (simp add: trunc_def)
    next
      case False
      with p pq show ?thesis by (simp add: trunc_def ceiling_mono)
    qed
  qed
qed

lemma sint_word_of_int_64:
  "- (2 ^ 63) \<le> k \<Longrightarrow> k < 2 ^ 63 \<Longrightarrow> sint (word_of_int k :: 64 word) = k"
  by (simp add: sint_sbintrunc' signed_take_bit_int_eq_self)

lemma sint_bounds_64: "- (2 ^ 63) \<le> sint w" "sint w < 2 ^ 63" for w :: "64 word"
  using sint_ge [of w] sint_lt [of w] by simp_all

lemma sint_float_to_int64:
  "sint (float_to_int64 q) =
     (if - (2 ^ 63) \<le> trunc q \<and> trunc q < 2 ^ 63 then trunc q else - (2 ^ 63))"
  by (simp add: float_to_int64_def sint_word_of_int_64)

lemma float_to_int64_of_int [simp]: "float_to_int64 (of_int (sint w)) = w"
  using sint_bounds_64 [of w] by (simp add: float_to_int64_def word_of_int_sint_64)

lemma sint_eq_0_iff_64 [simp]: "sint w = 0 \<longleftrightarrow> w = 0" for w :: "64 word"
  using signed_eq_0_iff [of w, where ?'a = int] by simp

lemma float_to_int64_mono:
  assumes "p \<le> q" "trunc q < 2 ^ 63"
  shows "sint (float_to_int64 p) \<le> sint (float_to_int64 q)"
  using trunc_mono [OF assms(1)] assms(2) by (auto simp: sint_float_to_int64)

subsection \<open>The shape of a returned frame\<close>

lemma remove_missing_values_columns:
  "remove_missing_values L df cs = Inr df2 \<Longrightarrow> set cs \<subseteq> set (columns df) \<and> columns df2 = columns df"
  by (auto simp: remove_missing_values_eq split: if_splits)

lemma fix_logic_errors_columns:
  "fix_logic_errors df = Inr df3 \<Longrightarrow> columns df3 = columns df"
  by (auto simp: fix_logic_errors_eq split: if_splits)

lemma normalize_response_time_columns [simp]:
  "columns (normalize_response_time L df m) = columns df"
  by (simp add: normalize_response_time_def)

lemma add_hint_independence_columns:
  "add_hint_independence df = Inr df5 \<Longrightarrow> columns df5 = with_column ''hint_independence'' (columns df)"
  by (auto simp: add_hint_independence_eq split: if_splits)

lemma convert_data_types_columns:
  "convert_data_types L df = Inr df6 \<Longrightarrow> columns df6 = columns df"
  by (auto simp: convert_data_types_eq split: if_splits)

lemma check_sequential_order_columns:
  "check_sequential_order df = Inr (n, df7) \<Longrightarrow> columns df7 = columns df"
  by (auto simp: check_sequential_order_def sort_values_def split: if_splits sum.splits)

lemma select_columns_columns:
  "select_columns cs df = Inr out \<Longrightarrow> set cs \<subseteq> set (columns df)"
  by (auto simp: select_columns_def split: if_splits)

lemma keep_cols_input:
  "set keep_cols \<subseteq> set (with_column ''hint_independence'' cs) \<Longrightarrow> set input_cols \<subseteq> set cs"
  by (auto simp: input_cols_def critical_columns_def keep_cols_def with_column_def split: if_splits)

lemma process_data_columns:
  assumes "process_data L df = Inr out"
  shows "set input_cols \<subseteq> set (columns df)"
proof -
  from assms obtain df2 df3 df5 df6 n df7 where
    s2: "remove_missing_values L (remove_duplicates df) critical_columns = Inr df2" and
    s3: "fix_logic_errors df2 = Inr df3" and
    s5: "add_hint_independence (normalize_response_time L df3 default_max_seconds) = Inr df5" and
    s6: "convert_data_types L df5 = Inr df6" and
    s7: "check_sequential_order df6 = Inr (n, df7)" and
    s8: "select_columns keep_cols df7 = Inr out"
    by (auto simp: process_data_def split: sum.splits)
  have "columns df7 = with_column ''hint_independence'' (columns df)"
    using remove_missing_values_columns [OF s2] fix_logic_errors_columns [OF s3]
      add_hint_independence_columns [OF s5] convert_data_types_columns [OF s6]
      check_sequential_order_columns [OF s7]
    by simp
  with select_columns_columns [OF s8] show ?thesis
    by (intro keep_cols_input) simp
qed

text \<open>
  A row is well typed when no stage raises on it: its \<open>correct\<close> cell can be cast to an
  integer, its hint cells are numbers, and after stages 2 to 5 none of its five integer cells is
  infinite.
\<close>

definition well_typed :: "pylib \<Rightarrow> row \<Rightarrow> bool" where
  "well_typed L r =
     (int_castable L (r ''correct'') \<and> is_number (r ''hint_count'') \<and> is_number (r ''hint_total'') \<and>
      int_parsable_row L int_cols (prepare L r))"

lemma process_data_Inr:
  assumes "process_data L df = Inr out"
  shows "set input_cols \<subseteq> set (columns df)"
    and "list_all (well_typed L) (survivors df)"
    and "out = \<lparr>columns = keep_cols,
             rows = map (restrict_row keep_cols)
               (sort_key (row_key order_cols) (map (repair L) (survivors df)))\<rparr>"
proof -
  show cols: "set input_cols \<subseteq> set (columns df)"
    by (rule process_data_columns [OF assms])
  from assms show "list_all (well_typed L) (survivors df)"
    unfolding process_data_eq [OF cols]
    by (auto simp: well_typed_def list_all_iff split: if_splits)
  from assms show "out = \<lparr>columns = keep_cols,
             rows = map (restrict_row keep_cols)
               (sort_key (row_key order_cols) (map (repair L) (survivors df)))\<rparr>"
    unfolding process_data_eq [OF cols]
    by (auto split: if_splits)
qed

lemma process_data_well_typed:
  assumes "set input_cols \<subseteq> set (columns df)" "list_all (well_typed L) (survivors df)"
  shows "process_data L df =
     Inr \<lparr>columns = keep_cols,
           rows = map (restrict_row keep_cols)
             (sort_key (row_key order_cols) (map (repair L) (survivors df)))\<rparr>"
  using assms(2) unfolding process_data_eq [OF assms(1)]
  by (auto simp: well_typed_def list_all_iff)

text \<open>
  The returned rows correspond one to one to the surviving input rows: some arrangement of the
  survivors (the order of the final sort) is repaired row by row into the output.
\<close>

lemma insort_key_map:
  "insort_key f (g x) (map g xs) = map g (insort_key (\<lambda>x. f (g x)) x xs)"
  by (induction xs) simp_all

lemma sort_key_map: "sort_key f (map g xs) = map g (sort_key (\<lambda>x. f (g x)) xs)"
  by (induction xs) (simp_all add: insort_key_map)

lemma process_data_aligned:
  assumes "process_data L df = Inr out"
  shows "\<exists>rs. mset rs = mset (survivors df) \<and> list_all (well_typed L) rs \<and>
     rows out = map (\<lambda>r0. restrict_row keep_cols (repair L r0)) rs"
proof -
  let ?rs = "sort_key (\<lambda>r0. row_key order_cols (repair L r0)) (survivors df)"
  have "mset ?rs = mset (survivors df)"
    by simp
  moreover have "list_all (well_typed L) ?rs"
    using process_data_Inr(2) [OF assms] by (simp add: list_all_iff)
  moreover have "rows out = map (\<lambda>r0. restrict_row keep_cols (repair L r0)) ?rs"
    by (simp add: process_data_Inr(3) [OF assms] sort_key_map comp_def)
  ultimately show ?thesis by blast
qed

lemma list_all2_map_right:
  "list_all2 P xs (map f xs) \<longleftrightarrow> list_all (\<lambda>x. P x (f x)) xs"
  by (induction xs) simp_all

lemma survivors_subset:
  "r \<in> set (survivors df) \<Longrightarrow> r \<in> set (rows df) \<and> complete critical_columns r"
proof -
  have "set (drop_dups cs seen rs) \<subseteq> set rs" for cs seen rs
    by (induction rs arbitrary: seen) auto
  then show "r \<in> set (survivors df) \<Longrightarrow> r \<in> set (rows df) \<and> complete critical_columns r"
    by (auto simp: survivors_def remove_duplicates_def drop_duplicates_def split: if_splits)
qed

subsection \<open>The cells of a repaired row\<close>

lemma str_cols_other:
  assumes "c \<in> set str_cols"
  shows "c \<noteq> ''correct''" "c \<noteq> ''hint_count''" "c \<noteq> ''hint_total''"
    "c \<noteq> ''ms_first_response''" "c \<noteq> ''hint_independence''" "c \<noteq> ''attempt_count''"
  using assms by (auto simp: str_cols_def)

lemma int_cols_mem:
  "''attempt_count'' \<in> set int_cols" "''ms_first_response'' \<in> set int_cols"
  "''hint_count'' \<in> set int_cols" "''hint_total'' \<in> set int_cols" "''correct'' \<in> set int_cols"
  "''hint_independence'' \<notin> set int_cols" "''hint_independence'' \<notin> set str_cols"
  by (simp_all add: int_cols_def str_cols_def)

lemma int_cols_not_str:
  "''attempt_count'' \<notin> set str_cols" "''ms_first_response'' \<notin> set str_cols"
  "''hint_count'' \<notin> set str_cols" "''hint_total'' \<notin> set str_cols" "''correct'' \<notin> set str_cols"
  by (simp_all add: str_cols_def)

lemma to_int_VInt [simp]: "to_int L (VInt i) = VInt i"
  by (simp add: to_int_def int_cast_def)

lemma coerce_correct_VInt: "coerce_correct (VInt k) = VInt (if k = 0 then 0 else 1)"
  by (simp add: coerce_correct_def)

lemma prepare_cells:
  "prepare L r ''correct'' = VInt (if int_cast L (r ''correct'') = 0 then 0 else 1)"
  "prepare L r ''attempt_count'' = r ''attempt_count''"
  "prepare L r ''ms_first_response'' =
     clamp_max default_max_seconds (fillna0 (to_numeric L (r ''ms_first_response'')))"
  "prepare L r ''hint_count'' =
     (if val_gt (r ''hint_count'') (r ''hint_total'') = Inr True then r ''hint_total''
      else r ''hint_count'')"
  "prepare L r ''hint_total'' = r ''hint_total''"
  "prepare L r ''hint_independence'' =
     (case val_div (if val_gt (r ''hint_count'') (r ''hint_total'') = Inr True
                    then r ''hint_total'' else r ''hint_count'') (replace01 (r ''hint_total'')) of
        Inr x \<Rightarrow> rsub1 x | Inl e \<Rightarrow> VNaN)"
  by (simp_all add: prepare_def hint_independence_def normalize_row_def coerce_row_def
      clamp_hint_count clamp_hint_other fill_correct_def coerce_correct_VInt)

lemma prepare_str: "c \<in> set str_cols \<Longrightarrow> prepare L r c = r c"
  using str_cols_other [of c]
  by (simp add: prepare_def hint_independence_other normalize_row_other
      coerce_row_other clamp_hint_other fill_correct_other)

lemma repair_str: "c \<in> set str_cols \<Longrightarrow> repair L r c = astype_str L (r c)"
  by (simp add: repair_def convert_row_apply prepare_str)

lemma repair_correct:
  "repair L r ''correct'' = VInt (if int_cast L (r ''correct'') = 0 then 0 else 1)"
  by (simp add: repair_def convert_row_apply int_cols_mem int_cols_not_str prepare_cells)

lemma repair_attempt_count:
  "repair L r ''attempt_count'' = to_int L (r ''attempt_count'')"
  by (simp add: repair_def convert_row_apply int_cols_mem int_cols_not_str prepare_cells)

lemma repair_ms_first_response:
  "repair L r ''ms_first_response'' =
     to_int L (clamp_max default_max_seconds (fillna0 (to_numeric L (r ''ms_first_response''))))"
  by (simp add: repair_def convert_row_apply int_cols_mem int_cols_not_str prepare_cells)

lemma repair_hint_count:
  "repair L r ''hint_count'' =
     to_int L (if val_gt (r ''hint_count'') (r ''hint_total'') = Inr True
               then r ''hint_total'' else r ''hint_count'')"
  by (simp add: repair_def convert_row_apply int_cols_mem int_cols_not_str prepare_cells)

lemma repair_hint_total:
  "repair L r ''hint_total'' = to_int L (r ''hint_total'')"
  by (simp add: repair_def convert_row_apply int_cols_mem int_cols_not_str prepare_cells)

lemma repair_hint_independence:
  "repair L r ''hint_independence'' =
     (case val_div (if val_gt (r ''hint_count'') (r ''hint_total'') = Inr True
                    then r ''hint_total'' else r ''hint_count'') (replace01 (r ''hint_total'')) of
        Inr x \<Rightarrow> rsub1 x | Inl e \<Rightarrow> VNaN)"
  by (simp add: repair_def convert_row_apply int_cols_mem prepare_cells)

lemma int_parsable_prepare:
  "int_parsable_row L int_cols (prepare L r) \<longleftrightarrow>
     int_parsable L (r ''attempt_count'') \<and>
     int_parsable L (clamp_max default_max_seconds (fillna0 (to_numeric L (r ''ms_first_response'')))) \<and>
     int_parsable L (if val_gt (r ''hint_count'') (r ''hint_total'') = Inr True
                     then r ''hint_total'' else r ''hint_count'') \<and>
     int_parsable L (r ''hint_total'')"
  by (simp add: int_parsable_row_def int_cols_def prepare_cells int_parsable_def)

lemma restrict_row_keep: "c \<in> set cs \<Longrightarrow> restrict_row cs r c = r c"
  by (simp add: restrict_row_def)

lemma keep_cols_mem:
  "''correct'' \<in> set keep_cols" "''attempt_count'' \<in> set keep_cols"
  "''ms_first_response'' \<in> set keep_cols" "''hint_count'' \<in> set keep_cols"
  "''hint_total'' \<in> set keep_cols" "''hint_independence'' \<in> set keep_cols"
  "''user_id'' \<in> set keep_cols" "''problem_id'' \<in> set keep_cols"
  by (simp_all add: keep_cols_def)

lemma str_cols_mem:
  "''user_id'' \<in> set str_cols" "''problem_id'' \<in> set str_cols" "''template_id'' \<in> set str_cols"
  "''skill_id'' \<in> set str_cols" "''skill_name'' \<in> set str_cols" "''teacher_id'' \<in> set str_cols"
  "''student_class_id'' \<in> set str_cols" "''school_id'' \<in> set str_cols"
  by (simp_all add: str_cols_def)

lemma row_vals_output:
  "row_vals keep_cols (restrict_row keep_cols (repair L r)) =
     [astype_str L (r ''user_id''), astype_str L (r ''problem_id''), astype_str L (r ''template_id''),
      astype_str L (r ''skill_id''), astype_str L (r ''skill_name''), astype_str L (r ''teacher_id''),
      astype_str L (r ''student_class_id''), astype_str L (r ''school_id''),
      repair L r ''correct'', repair L r ''attempt_count'', repair L r ''ms_first_response'',
      repair L r ''hint_count'', repair L r ''hint_total'', repair L r ''hint_independence'']"
proof -
  have "row_vals keep_cols (restrict_row keep_cols x) = row_vals keep_cols x" for x
    by (simp add: row_vals_def restrict_row_def)
  then show ?thesis
    by (simp add: row_vals_def keep_cols_def repair_str str_cols_mem)
qed

subsection \<open>Numbers in the repaired cells\<close>

lemma to_numeric_filled: "is_number (fillna0 (to_numeric L v))"
  by (cases v) (auto simp: fillna0_def split: option.splits)

lemma is_number_num_of: "is_number v \<Longrightarrow> \<exists>x. num_of v = Some x"
  by (cases v) auto

lemma num_of_is_number: "num_of v = Some x \<Longrightarrow> is_number v"
  by (cases v) auto

lemma is_number_not_str: "is_number v \<Longrightarrow> \<not> is_str v"
  by (cases v) auto

lemma less_float64_simps [simp]:
  "Finite p < Finite q \<longleftrightarrow> p < q"
  "NegInf < Finite q" "Finite p < PosInf" "NegInf < PosInf"
  "\<not> x < NegInf" "\<not> PosInf < x"
  by (cases x; auto simp: less_float64_def)+

lemma min_Finite [simp]: "min (Finite p) (Finite q) = Finite (min p q)"
  by (simp add: min_def)

lemma to_int_number:
  "num_of v = Some (Finite q) \<Longrightarrow> to_int L v = VInt (float_to_int64 q)"
  by (cases v) (auto simp: to_int_def int_cast_def float_of_int64_def)

lemma int_parsable_number:
  "num_of v = Some x \<Longrightarrow> int_parsable L v \<longleftrightarrow> x \<noteq> PosInf \<and> x \<noteq> NegInf"
  by (cases v) (auto simp: int_parsable_def float_of_int64_def)

lemma val_gt_number:
  "num_of a = Some x \<Longrightarrow> num_of b = Some y \<Longrightarrow> val_gt a b = Inr (y < x)"
  by (cases a; cases b) simp_all

lemma val_gt_min:
  assumes "num_of u = Some a" "num_of v = Some b"
  shows "num_of (if val_gt u v = Inr True then v else u) = Some (min a b)"
  using assms by (cases u; cases v) (auto simp: min_def)

text \<open>
  The spec's effective hint total: \<open>hint_total\<close>, with 1 in place of 0.
\<close>

definition effective_hint_total :: "rat \<Rightarrow> rat" where
  "effective_hint_total t = (if t = 0 then 1 else t)"

lemma val_div_replace01:
  assumes "num_of u = Some (Finite a)" "num_of v = Some (Finite b)"
  shows "val_div u (replace01 v) = Inr (Some (Finite (a / effective_hint_total b)))"
  using assms
  by (cases u; cases v)
    (auto simp: effective_hint_total_def float_of_int64_def)

text \<open>The same for all numbers, infinite ones too, in float arithmetic.\<close>

definition effective_total :: "float64 \<Rightarrow> float64" where
  "effective_total t = (if t = Finite 0 then Finite 1 else t)"

lemma val_div_replace01_float:
  assumes "num_of u = Some a" "num_of v = Some b"
  shows "val_div u (replace01 v) = Inr (float_div a (effective_total b))"
  using assms
  by (cases u; cases v) (auto simp: effective_total_def float_of_int64_def)

subsection \<open>What deduplication keeps\<close>

lemma remdups_snoc: "remdups (xs @ [x]) = remdups (filter (\<lambda>k. k \<noteq> x) xs) @ [x]"
  by (induction xs) auto

lemma first_occurrences_Cons:
  "rev (remdups (rev (x # ys))) = x # rev (remdups (rev (filter (\<lambda>k. k \<noteq> x) ys)))"
  by (simp add: remdups_snoc rev_filter)

lemma filter_not_seen_Cons:
  "filter (\<lambda>k. k \<notin> set (a # seen)) zs =
     filter (\<lambda>k. k \<noteq> a) (filter (\<lambda>k. k \<notin> set seen) zs)"
  by (induction zs) auto

lemma drop_dups_first_occurrences:
  "map (row_vals cs) (drop_dups cs seen rs) =
     rev (remdups (rev (filter (\<lambda>k. k \<notin> set seen) (map (row_vals cs) rs))))"
proof (induction rs arbitrary: seen)
  case Nil
  then show ?case by simp
next
  case (Cons r rs)
  let ?k = "row_vals cs r" and ?ks = "map (row_vals cs) rs"
  show ?case
  proof (cases "?k \<in> set seen")
    case True
    then show ?thesis by (simp add: Cons.IH)
  next
    case False
    have eq: "filter (\<lambda>k. k \<notin> set (?k # seen)) ?ks =
        filter (\<lambda>k. k \<noteq> ?k) (filter (\<lambda>k. k \<notin> set seen) ?ks)"
      by (rule filter_not_seen_Cons)
    from False have "map (row_vals cs) (drop_dups cs seen (r # rs)) =
        ?k # map (row_vals cs) (drop_dups cs (?k # seen) rs)"
      by simp
    also have "\<dots> = ?k # rev (remdups (rev (filter (\<lambda>k. k \<noteq> ?k) (filter (\<lambda>k. k \<notin> set seen) ?ks))))"
      by (simp only: Cons.IH eq)
    also have "\<dots> = rev (remdups (rev (?k # filter (\<lambda>k. k \<notin> set seen) ?ks)))"
      by (simp only: first_occurrences_Cons)
    also from False have "?k # filter (\<lambda>k. k \<notin> set seen) ?ks =
        filter (\<lambda>k. k \<notin> set seen) (map (row_vals cs) (r # rs))"
      by simp
    finally show ?thesis .
  qed
qed

subsection \<open>Running the pipeline again\<close>

text \<open>
  The pipeline applied to its own result, and the number of rows of a result.
\<close>

definition run_twice :: "pylib \<Rightarrow> dataframe \<Rightarrow> error + dataframe" where
  "run_twice L df = (case process_data L df of Inl e \<Rightarrow> Inl e | Inr out \<Rightarrow> process_data L out)"

definition row_count :: "error + dataframe \<Rightarrow> error + nat" where
  "row_count res = map_sum id (\<lambda>out. length (rows out)) res"

section \<open>Sample data\<close>

text \<open>
  A row with the thirteen input columns, as \<^verbatim>\<open>read_csv\<close> could deliver it: numeric
  and textual identifiers, and the four cells the repairs act on left open.
\<close>

definition row_of :: "(string \<times> val) list \<Rightarrow> row" where
  "row_of cells = (\<lambda>c. case map_of cells c of Some v \<Rightarrow> v | None \<Rightarrow> VNaN)"

definition sample_row :: "val \<Rightarrow> val \<Rightarrow> val \<Rightarrow> val \<Rightarrow> row" where
  "sample_row correct ms hint_count hint_total =
     row_of [(''user_id'', VInt 7), (''problem_id'', VInt 20), (''template_id'', VStr ''t3''),
       (''skill_id'', VFloat (Finite 2)), (''skill_name'', VStr ''Addition''),
       (''teacher_id'', VStr ''k5''), (''student_class_id'', VStr ''c6''),
       (''school_id'', VStr ''s9''), (''correct'', correct), (''attempt_count'', VInt 1),
       (''ms_first_response'', ms), (''hint_count'', hint_count), (''hint_total'', hint_total)]"

definition sample_frame :: "row list \<Rightarrow> dataframe" where
  "sample_frame rs = \<lparr>columns = input_cols, rows = rs\<rparr>"

lemma sample_row_cells:
  "sample_row a b c d ''user_id'' = VInt 7"
  "sample_row a b c d ''problem_id'' = VInt 20"
  "sample_row a b c d ''template_id'' = VStr ''t3''"
  "sample_row a b c d ''skill_id'' = VFloat (Finite 2)"
  "sample_row a b c d ''skill_name'' = VStr ''Addition''"
  "sample_row a b c d ''teacher_id'' = VStr ''k5''"
  "sample_row a b c d ''student_class_id'' = VStr ''c6''"
  "sample_row a b c d ''school_id'' = VStr ''s9''"
  "sample_row a b c d ''correct'' = a"
  "sample_row a b c d ''attempt_count'' = VInt 1"
  "sample_row a b c d ''ms_first_response'' = b"
  "sample_row a b c d ''hint_count'' = c"
  "sample_row a b c d ''hint_total'' = d"
  by (simp_all add: sample_row_def row_of_def)

lemma str_of_int_7: "str_of_int 7 = ''7''"
  by (simp add: str_of_int_def digits.simps digit_char_def)

lemma str_of_int_20: "str_of_int 20 = ''20''"
  by (simp add: str_of_int_def digits.simps digit_char_def)

lemma str_of_float_2: "str_of_float simple_lib 2 = ''2.0''"
  by (simp add: simple_lib_def str_of_int_def digits.simps digit_char_def)

lemma simple_lib_abc:
  "int_of_str simple_lib ''abc'' = Inl ValueError" "numeric_of_str simple_lib ''abc'' = None"
  by (simp_all add: simple_lib_def digit_val_def)

lemma sample_row_vals:
  "row_vals input_cols (sample_row a b c d) =
     [VInt 7, VInt 20, VStr ''t3'', VFloat (Finite 2), VStr ''Addition'', VStr ''k5'', VStr ''c6'',
      VStr ''s9'', c, d, a, VInt 1, b]"
  by (simp add: row_vals_def input_cols_def critical_columns_def sample_row_cells)

lemma sample_complete:
  "c \<noteq> VNaN \<Longrightarrow> d \<noteq> VNaN \<Longrightarrow> complete critical_columns (sample_row a b c d)"
  by (simp add: complete_def critical_columns_def sample_row_cells)

lemma input_cols_not_Nil: "input_cols \<noteq> []"
  by (simp add: input_cols_def)

lemma survivors_sample1:
  "c \<noteq> VNaN \<Longrightarrow> d \<noteq> VNaN \<Longrightarrow>
   survivors (sample_frame [sample_row a b c d]) = [sample_row a b c d]"
  by (simp add: survivors_def remove_duplicates_def drop_duplicates_def sample_frame_def
      input_cols_not_Nil sample_complete)

text \<open>
  When a sample row is well typed: its \<open>correct\<close> cell can be cast, its hint cells are numbers
  and \<open>hint_total\<close> is finite, the clamped \<open>hint_count\<close> is finite, and its
  \<open>ms_first_response\<close> is not the negative infinity.
\<close>

lemma well_typed_sample:
  "well_typed L (sample_row a b c d) \<longleftrightarrow>
     int_castable L a \<and> is_number c \<and> is_number d \<and>
     int_parsable L (clamp_max default_max_seconds (fillna0 (to_numeric L b))) \<and>
     int_parsable L (if val_gt c d = Inr True then d else c) \<and> int_parsable L d"
  by (auto simp: well_typed_def int_parsable_prepare sample_row_cells int_parsable_def)

lemma process_sample1:
  assumes "well_typed L (sample_row a b c d)"
  shows "process_data L (sample_frame [sample_row a b c d]) =
     Inr \<lparr>columns = keep_cols, rows = [restrict_row keep_cols (repair L (sample_row a b c d))]\<rparr>"
proof -
  have nn: "c \<noteq> VNaN" "d \<noteq> VNaN" using assms by (auto simp: well_typed_sample)
  have "set input_cols \<subseteq> set (columns (sample_frame [sample_row a b c d]))"
    by (simp add: sample_frame_def)
  from process_data_well_typed [OF this, of L] assms show ?thesis
    by (simp add: survivors_sample1 [OF nn])
qed

lemma sample_output:
  assumes "well_typed simple_lib (sample_row a b c d)"
  shows "map_sum id table (process_data simple_lib (sample_frame [sample_row a b c d])) =
     Inr [[VStr ''7'', VStr ''20'', VStr ''t3'', VStr ''2.0'', VStr ''Addition'', VStr ''k5'',
           VStr ''c6'', VStr ''s9'',
           VInt (if int_cast simple_lib a = 0 then 0 else 1),
           VInt 1,
           to_int simple_lib (clamp_max default_max_seconds (fillna0 (to_numeric simple_lib b))),
           to_int simple_lib (if val_gt c d = Inr True then d else c),
           to_int simple_lib d,
           (case val_div (if val_gt c d = Inr True then d else c) (replace01 d) of
              Inr x \<Rightarrow> rsub1 x | Inl e \<Rightarrow> VNaN)]]"
  by (simp add: process_sample1 [OF assms] table_def row_vals_output sample_row_cells
      str_of_int_7 str_of_int_20 str_of_float_2 repair_correct repair_attempt_count
      repair_ms_first_response repair_hint_count repair_hint_total repair_hint_independence)

lemma survivors_sample2:
  assumes "b \<noteq> b'" "c \<noteq> VNaN" "d \<noteq> VNaN"
  shows "survivors (sample_frame [sample_row a b c d, sample_row a b' c d]) =
     [sample_row a b c d, sample_row a b' c d]"
  using assms
  by (simp add: survivors_def remove_duplicates_def drop_duplicates_def sample_frame_def
      input_cols_not_Nil sample_row_vals sample_complete)

lemma row_key_repair:
  "row_key order_cols (repair L r) =
     [sort_key_of (astype_str L (r ''user_id'')), sort_key_of (astype_str L (r ''problem_id'')),
      sort_key_of (repair L r ''ms_first_response'')]"
  by (simp add: row_key_def order_cols_def repair_str str_cols_mem)

subsection \<open>The cells of a well-typed row\<close>

lemma num_of_clamp_max:
  assumes "num_of v = Some x"
  shows "num_of (clamp_max m v) = Some (min x (float_of_int64 m))"
proof (cases v)
  case (VInt i)
  with assms show ?thesis
    by (auto simp: clamp_max_def float_of_int64_def min_def)
next
  case (VFloat y)
  with assms show ?thesis
    by (auto simp: clamp_max_def min_def)
qed (use assms in simp_all)

lemma float_of_int64_default [simp]: "float_of_int64 default_max_seconds = Finite 3600"
  by (simp add: float_of_int64_def default_max_seconds_def)

lemma finite_float_cases: "x \<noteq> PosInf \<Longrightarrow> x \<noteq> NegInf \<Longrightarrow> \<exists>q. x = Finite q"
  by (cases x) simp_all

lemma trunc_below_int64:
  assumes "q < 2 ^ 53"
  shows "trunc q < 2 ^ 63"
proof -
  have "trunc q \<le> trunc (of_int (2 ^ 53))"
    using assms by (intro trunc_mono) simp
  also have "\<dots> = 2 ^ 53"
    by (rule trunc_of_int)
  also have "\<dots> < (2 ^ 63 :: int)"
    by simp
  finally show ?thesis .
qed

lemma min_Finite_le:
  assumes "min a (Finite b) = Finite c"
  shows "c \<le> b"
proof -
  have "min a (Finite b) \<le> Finite b"
    by simp
  with assms show ?thesis
    by simp
qed

lemma well_typed_hints:
  assumes "well_typed L r0"
  obtains a b c where
    "num_of (r0 ''hint_count'') = Some a" "num_of (r0 ''hint_total'') = Some (Finite b)"
    "min a (Finite b) = Finite c"
    "repair L r0 ''hint_count'' = VInt (float_to_int64 c)"
    "repair L r0 ''hint_total'' = VInt (float_to_int64 b)"
    "repair L r0 ''hint_independence'' = VFloat (Finite (1 - c / effective_hint_total b))"
proof -
  let ?u = "r0 ''hint_count''" and ?v = "r0 ''hint_total''"
  let ?w = "if val_gt ?u ?v = Inr True then ?v else ?u"
  from assms have num: "is_number ?u" "is_number ?v"
    and par: "int_parsable L ?w" "int_parsable L ?v"
    by (simp_all add: well_typed_def int_parsable_prepare)
  from num obtain a x where a: "num_of ?u = Some a" and x: "num_of ?v = Some x"
    using is_number_num_of by blast
  from par(2) x obtain b where b: "x = Finite b"
    using int_parsable_number [OF x, of L] finite_float_cases by blast
  have w: "num_of ?w = Some (min a (Finite b))"
    using val_gt_min [OF a x] b by simp
  from par(1) obtain c where c: "min a (Finite b) = Finite c"
    using int_parsable_number [OF w, of L] finite_float_cases by blast
  have "repair L r0 ''hint_count'' = VInt (float_to_int64 c)"
    using to_int_number [of ?w c L] w c by (simp add: repair_hint_count)
  moreover have "repair L r0 ''hint_total'' = VInt (float_to_int64 b)"
    using to_int_number [of ?v b L] x b by (simp add: repair_hint_total)
  moreover have "repair L r0 ''hint_independence'' = VFloat (Finite (1 - c / effective_hint_total b))"
    using val_div_replace01 [of ?w c ?v b] w c x b by (simp add: repair_hint_independence)
  ultimately show thesis
    using that a x b c by blast
qed

lemma well_typed_ms_first_response:
  assumes "well_typed L r0"
  obtains x q where
    "num_of (fillna0 (to_numeric L (r0 ''ms_first_response''))) = Some x"
    "min x (Finite 3600) = Finite q"
    "repair L r0 ''ms_first_response'' = VInt (float_to_int64 q)"
proof -
  let ?v = "fillna0 (to_numeric L (r0 ''ms_first_response''))"
  obtain x where x: "num_of ?v = Some x"
    using is_number_num_of [OF to_numeric_filled] by blast
  then have cl: "num_of (clamp_max default_max_seconds ?v) = Some (min x (Finite 3600))"
    using num_of_clamp_max [of ?v x default_max_seconds] by simp
  from assms have "int_parsable L (clamp_max default_max_seconds ?v)"
    by (simp add: well_typed_def int_parsable_prepare)
  then obtain q where q: "min x (Finite 3600) = Finite q"
    using int_parsable_number [OF cl, of L] finite_float_cases by blast
  have "repair L r0 ''ms_first_response'' = VInt (float_to_int64 q)"
    using to_int_number [of "clamp_max default_max_seconds ?v" q L] cl q
    by (simp add: repair_ms_first_response)
  with x q show thesis using that by blast
qed


lemma survivors_mset_subset:
  "mset rs = mset (survivors df) \<Longrightarrow> set rs \<subseteq> set (rows df)"
  using survivors_subset mset_eq_setD by blast

text \<open>A sample row of integers is well typed.\<close>

lemma well_typed_sample_ints:
  "well_typed simple_lib (sample_row (VInt k) (VInt ms) (VInt hc) (VInt ht))"
  by (simp add: well_typed_sample int_castable_def int_parsable_def clamp_max_def fillna0_def)

text \<open>
  Two sample rows that differ only in a response time above the cap, and what the pipeline
  returns for them.
\<close>

lemma capped_sample_rows:
  "process_data simple_lib
     (sample_frame [sample_row (VInt 1) (VInt 4000) (VInt 1) (VInt 4),
                    sample_row (VInt 1) (VInt 5000) (VInt 1) (VInt 4)]) =
   Inr \<lparr>columns = keep_cols,
         rows = [restrict_row keep_cols (repair simple_lib (sample_row (VInt 1) (VInt 4000) (VInt 1) (VInt 4))),
                 restrict_row keep_cols (repair simple_lib (sample_row (VInt 1) (VInt 5000) (VInt 1) (VInt 4)))]\<rparr>"
proof -
  let ?r1 = "sample_row (VInt 1) (VInt 4000) (VInt 1) (VInt 4)"
  let ?r2 = "sample_row (VInt 1) (VInt 5000) (VInt 1) (VInt 4)"
  have cols: "set input_cols \<subseteq> set (columns (sample_frame [?r1, ?r2]))"
    by (simp add: sample_frame_def)
  have surv: "survivors (sample_frame [?r1, ?r2]) = [?r1, ?r2]"
    by (rule survivors_sample2) simp_all
  have wt: "well_typed simple_lib ?r1" "well_typed simple_lib ?r2"
    by (rule well_typed_sample_ints)+
  have ms: "repair simple_lib ?r1 ''ms_first_response'' = VInt 3600"
    "repair simple_lib ?r2 ''ms_first_response'' = VInt 3600"
    by (simp_all add: repair_ms_first_response sample_row_cells fillna0_def clamp_max_def
        default_max_seconds_def)
  have key: "row_key order_cols (repair simple_lib ?r1) = row_key order_cols (repair simple_lib ?r2)"
    by (simp add: row_key_repair ms sample_row_cells)
  have sort: "sort_key (row_key order_cols) [repair simple_lib ?r1, repair simple_lib ?r2] =
      [repair simple_lib ?r1, repair simple_lib ?r2]"
    by (simp add: key)
  have "list_all (well_typed simple_lib) (survivors (sample_frame [?r1, ?r2]))"
    by (simp add: surv wt)
  from process_data_well_typed [OF cols this] show ?thesis
    by (simp add: surv sort del: sort_key_simps)
qed

lemma three_quarters: "1 - 1 / effective_hint_total 4 = 3 / 4"
  by (simp add: effective_hint_total_def)

lemma capped_sample_cells:
  "row_vals keep_cols (restrict_row keep_cols (repair simple_lib (sample_row (VInt 1) (VInt 4000) (VInt 1) (VInt 4)))) =
     [VStr ''7'', VStr ''20'', VStr ''t3'', VStr ''2.0'', VStr ''Addition'', VStr ''k5'',
      VStr ''c6'', VStr ''s9'', VInt 1, VInt 1, VInt 3600, VInt 1, VInt 4, VFloat (Finite (3 / 4))]"
  "row_vals keep_cols (restrict_row keep_cols (repair simple_lib (sample_row (VInt 1) (VInt 5000) (VInt 1) (VInt 4)))) =
     [VStr ''7'', VStr ''20'', VStr ''t3'', VStr ''2.0'', VStr ''Addition'', VStr ''k5'',
      VStr ''c6'', VStr ''s9'', VInt 1, VInt 1, VInt 3600, VInt 1, VInt 4, VFloat (Finite (3 / 4))]"
  by (simp_all add: row_vals_output sample_row_cells str_of_int_7 str_of_int_20 str_of_float_2
      repair_correct repair_attempt_count repair_ms_first_response repair_hint_count
      repair_hint_total repair_hint_independence int_cast_def fillna0_def clamp_max_def
      default_max_seconds_def float_of_int64_def)


text \<open>
  A sample row whose \<open>hint_total\<close> is the float \<open>10^19\<close>, beyond the 64-bit range, and one
  whose \<open>hint_count\<close> is the float \<open>0.5\<close>.
\<close>

lemma sint_min_int64: "sint (- 9223372036854775808 :: 64 word) = - 9223372036854775808"
  using sint_word_of_int_64 [of "- (2 ^ 63)"] by simp

lemma well_typed_sample_overflow:
  "well_typed simple_lib
     (sample_row (VInt 1) (VInt 10) (VInt 5) (VFloat (Finite 10000000000000000000)))"
  by (simp add: well_typed_sample int_castable_def int_parsable_def clamp_max_def fillna0_def
      float_of_int64_def default_max_seconds_def)

lemma overflow_sample_cells:
  "repair simple_lib (sample_row (VInt 1) (VInt 10) (VInt 5) (VFloat (Finite 10000000000000000000)))
     ''hint_count'' = VInt 5"
  "repair simple_lib (sample_row (VInt 1) (VInt 10) (VInt 5) (VFloat (Finite 10000000000000000000)))
     ''hint_total'' = VInt (- 9223372036854775808)"
proof -
  have big: "float_to_int64 10000000000000000000 = - 9223372036854775808"
    by (simp add: float_to_int64_def)
  show "repair simple_lib (sample_row (VInt 1) (VInt 10) (VInt 5) (VFloat (Finite 10000000000000000000)))
     ''hint_count'' = VInt 5"
    by (simp add: repair_hint_count sample_row_cells float_of_int64_def)
  show "repair simple_lib (sample_row (VInt 1) (VInt 10) (VInt 5) (VFloat (Finite 10000000000000000000)))
     ''hint_total'' = VInt (- 9223372036854775808)"
    by (simp add: repair_hint_total sample_row_cells to_int_def int_cast_def big)
qed

lemma well_typed_sample_fraction:
  "well_typed simple_lib (sample_row (VInt 1) (VInt 10) (VFloat (Finite (1 / 2))) (VInt 4))"
  by (simp add: well_typed_sample int_castable_def int_parsable_def clamp_max_def fillna0_def
      float_of_int64_def default_max_seconds_def)

lemma trunc_half: "trunc (1 / 2) = 0"
  by code_simp

lemma fraction_sample_cells:
  "repair simple_lib (sample_row (VInt 1) (VInt 10) (VFloat (Finite (1 / 2))) (VInt 4))
     ''hint_count'' = VInt 0"
  "repair simple_lib (sample_row (VInt 1) (VInt 10) (VFloat (Finite (1 / 2))) (VInt 4))
     ''hint_total'' = VInt 4"
  "repair simple_lib (sample_row (VInt 1) (VInt 10) (VFloat (Finite (1 / 2))) (VInt 4))
     ''hint_independence'' = VFloat (Finite (7 / 8))"
  by (simp_all add: repair_hint_count repair_hint_total repair_hint_independence sample_row_cells
      float_of_int64_def to_int_def int_cast_def float_to_int64_def trunc_half)

text \<open>
  The pipeline on the one-row frame it returned for a well-typed row: the second run succeeds
  and repairs the returned row once more.
\<close>

lemma rerun_single:
  assumes "well_typed L r"
  shows "process_data L \<lparr>columns = keep_cols, rows = [restrict_row keep_cols (repair L r)]\<rparr> =
     Inr \<lparr>columns = keep_cols,
           rows = [restrict_row keep_cols (repair L (restrict_row keep_cols (repair L r)))]\<rparr>"
proof -
  let ?x = "restrict_row keep_cols (repair L r)"
  let ?out = "\<lparr>columns = keep_cols, rows = [?x]\<rparr>"
  from assms obtain c b where hc: "repair L r ''hint_count'' = VInt (float_to_int64 c)"
    and ht: "repair L r ''hint_total'' = VInt (float_to_int64 b)"
    by (rule well_typed_hints)
  from assms obtain q where ms: "repair L r ''ms_first_response'' = VInt (float_to_int64 q)"
    by (rule well_typed_ms_first_response)
  have str: "is_str (?x c)" if "c \<in> set str_cols" for c
    using that by (auto simp: restrict_row_def repair_str keep_cols_def str_cols_def)
  have cells: "?x ''hint_count'' = VInt (float_to_int64 c)" "?x ''hint_total'' = VInt (float_to_int64 b)"
    "?x ''ms_first_response'' = VInt (float_to_int64 q)"
    "?x ''correct'' = VInt (if int_cast L (r ''correct'') = 0 then 0 else 1)"
    "?x ''attempt_count'' = to_int L (r ''attempt_count'')"
    by (simp_all add: restrict_row_keep keep_cols_mem hc ht ms repair_correct repair_attempt_count)
  have cc: "critical_columns = str_cols @ [''hint_count'', ''hint_total'']"
    by (simp add: critical_columns_def str_cols_def)
  have "?x c \<noteq> VNaN" if "c \<in> set str_cols" for c
    using str [OF that] by auto
  then have compl: "complete critical_columns ?x"
    unfolding cc complete_def list_all_iff using cells by auto
  have cols: "set input_cols \<subseteq> set (columns ?out)"
    by (auto simp: input_cols_def critical_columns_def keep_cols_def)
  have surv: "survivors ?out = [?x]"
    using compl
    by (simp add: survivors_def remove_duplicates_def drop_duplicates_def keep_cols_def)
  have "well_typed L ?x"
    by (simp add: well_typed_def int_parsable_prepare cells int_castable_def int_parsable_def
        to_int_def clamp_max_def fillna0_def)
  then have "list_all (well_typed L) (survivors ?out)"
    by (simp add: surv)
  from process_data_well_typed [OF cols this] show ?thesis
    by (simp add: surv)
qed

lemma run_twice_sample:
  assumes "well_typed L (sample_row a b c d)"
  shows "run_twice L (sample_frame [sample_row a b c d]) =
     Inr \<lparr>columns = keep_cols,
           rows = [restrict_row keep_cols
             (repair L (restrict_row keep_cols (repair L (sample_row a b c d))))]\<rparr>"
  by (simp add: run_twice_def process_sample1 [OF assms] rerun_single [OF assms])

section \<open>The claims\<close>

text \<open>
  C1, as the code has it.  The logic-repair stage keeps the number of rows, sets \<open>hint_count\<close>
  to \<open>hint_total\<close> on exactly the rows where \<open>hint_count > hint_total\<close>, and leaves
  \<open>hint_count\<close> on the other rows and \<open>hint_total\<close> on all rows as they were.  The rows of
  a frame the pipeline returns are the surviving input rows in some arrangement, each with
  \<^verbatim>\<open>int64\<close> cells \<open>hint_count\<close> and \<open>hint_total\<close>, and \<open>hint_count \<le> hint_total\<close>
  holds in every row whose input \<open>hint_total\<close> has a magnitude below \<open>2^53\<close>, where a float
  holds every integer exactly and the later cast to \<^verbatim>\<open>int64\<close> cannot overflow.  A
  \<open>hint_total\<close> of \<open>2^63\<close> or more is cast to the least \<^verbatim>\<open>int64\<close>, which any
  larger \<open>hint_count\<close> then exceeds.  The sample row has \<open>hint_count = 5\<close> and \<open>hint_total = 3\<close> and comes out
  with \<open>hint_count = 3\<close>.
\<close>

theorem hint_count_at_most_hint_total:
  "(fix_logic_errors df = Inr df3 \<longrightarrow>
      length (rows df3) = length (rows df) \<and>
      (\<forall>i<length (rows df).
          (rows df3 ! i) ''hint_count'' =
             (if val_gt ((rows df ! i) ''hint_count'') ((rows df ! i) ''hint_total'') = Inr True
              then (rows df ! i) ''hint_total'' else (rows df ! i) ''hint_count'') \<and>
          (rows df3 ! i) ''hint_total'' = (rows df ! i) ''hint_total'')) \<and>
   (process_data L df = Inr out \<longrightarrow>
      (\<exists>rs. mset rs = mset (survivors df) \<and> set rs \<subseteq> set (rows df) \<and>
         list_all2 (\<lambda>r0 r. \<exists>hc ht.
             r ''hint_count'' = VInt hc \<and> r ''hint_total'' = VInt ht \<and>
             (\<forall>t. num_of (r0 ''hint_total'') = Some (Finite t) \<and> \<bar>t\<bar> < 2 ^ 53 \<longrightarrow>
                  sint hc \<le> sint ht))
           rs (rows out)))"
proof (intro conjI impI allI)
  assume fle: "fix_logic_errors df = Inr df3"
  then have rows3: "rows df3 = map (fix_correct (columns df) \<circ> clamp_hint) (rows df)"
    by (auto simp: fix_logic_errors_eq split: if_splits)
  then show "length (rows df3) = length (rows df)"
    by simp
  fix i
  assume "i < length (rows df)"
  with rows3 have nth: "rows df3 ! i = fix_correct (columns df) (clamp_hint (rows df ! i))"
    by simp
  have other: "fix_correct cs x c = x c" if "c \<noteq> ''correct''" for cs x c
    using that by (simp add: fix_correct_def)
  show "(rows df3 ! i) ''hint_count'' =
             (if val_gt ((rows df ! i) ''hint_count'') ((rows df ! i) ''hint_total'') = Inr True
              then (rows df ! i) ''hint_total'' else (rows df ! i) ''hint_count'')"
    by (simp add: nth other clamp_hint_count)
  show "(rows df3 ! i) ''hint_total'' = (rows df ! i) ''hint_total''"
    by (simp add: nth other clamp_hint_other)
next
  assume run: "process_data L df = Inr out"
  from process_data_aligned [OF run] obtain rs where
    perm: "mset rs = mset (survivors df)" and wt: "list_all (well_typed L) rs"
    and out: "rows out = map (\<lambda>r0. restrict_row keep_cols (repair L r0)) rs"
    by blast
  have "\<exists>hc ht.
      restrict_row keep_cols (repair L r0) ''hint_count'' = VInt hc \<and>
      restrict_row keep_cols (repair L r0) ''hint_total'' = VInt ht \<and>
      (\<forall>t. num_of (r0 ''hint_total'') = Some (Finite t) \<and> \<bar>t\<bar> < 2 ^ 53 \<longrightarrow> sint hc \<le> sint ht)"
    if "r0 \<in> set rs" for r0
  proof -
    from wt that have "well_typed L r0" by (simp add: list_all_iff)
    then obtain a b c where b: "num_of (r0 ''hint_total'') = Some (Finite b)"
      and c: "min a (Finite b) = Finite c"
      and hc: "repair L r0 ''hint_count'' = VInt (float_to_int64 c)"
      and ht: "repair L r0 ''hint_total'' = VInt (float_to_int64 b)"
      by (rule well_typed_hints)
    have "sint (float_to_int64 c) \<le> sint (float_to_int64 b)" if "\<bar>b\<bar> < 2 ^ 53"
      using that by (intro float_to_int64_mono min_Finite_le [OF c] trunc_below_int64) simp
    with b hc ht show ?thesis
      by (simp add: restrict_row_keep keep_cols_mem)
  qed
  then have "list_all2 (\<lambda>r0 r. \<exists>hc ht.
             r ''hint_count'' = VInt hc \<and> r ''hint_total'' = VInt ht \<and>
             (\<forall>t. num_of (r0 ''hint_total'') = Some (Finite t) \<and> \<bar>t\<bar> < 2 ^ 53 \<longrightarrow>
                  sint hc \<le> sint ht))
           rs (rows out)"
    unfolding out list_all2_map_right by (simp add: list_all_iff)
  with perm survivors_mset_subset [OF perm]
  show "\<exists>rs. mset rs = mset (survivors df) \<and> set rs \<subseteq> set (rows df) \<and>
         list_all2 (\<lambda>r0 r. \<exists>hc ht.
             r ''hint_count'' = VInt hc \<and> r ''hint_total'' = VInt ht \<and>
             (\<forall>t. num_of (r0 ''hint_total'') = Some (Finite t) \<and> \<bar>t\<bar> < 2 ^ 53 \<longrightarrow>
                  sint hc \<le> sint ht))
           rs (rows out)"
    by blast
qed

theorem hint_count_at_most_hint_total_witness:
  "map_sum id table
     (process_data simple_lib (sample_frame [sample_row (VInt 2) (VInt 10000) (VInt 5) (VInt 3)])) =
   Inr [[VStr ''7'', VStr ''20'', VStr ''t3'', VStr ''2.0'', VStr ''Addition'', VStr ''k5'',
         VStr ''c6'', VStr ''s9'', VInt 1, VInt 1, VInt 3600, VInt 3, VInt 3, VFloat (Finite 0)]] \<and>
   map_sum id (col_vals ''hint_count'')
     (fix_logic_errors (sample_frame [sample_row (VInt 2) (VInt 10000) (VInt 5) (VInt 3)])) =
   Inr [VInt 3]"
proof -
  let ?F = "sample_frame [sample_row (VInt 2) (VInt 10000) (VInt 5) (VInt 3)]"
  have wt: "well_typed simple_lib (sample_row (VInt 2) (VInt 10000) (VInt 5) (VInt 3))"
    by (rule well_typed_sample_ints)
  have run: "map_sum id table (process_data simple_lib ?F) =
      Inr [[VStr ''7'', VStr ''20'', VStr ''t3'', VStr ''2.0'', VStr ''Addition'', VStr ''k5'',
         VStr ''c6'', VStr ''s9'', VInt 1, VInt 1, VInt 3600, VInt 3, VInt 3, VFloat (Finite 0)]]"
    by (subst sample_output [OF wt])
      (simp add: int_cast_def clamp_max_def fillna0_def default_max_seconds_def float_of_int64_def)
  then obtain out where out: "process_data simple_lib ?F = Inr out"
    by (cases "process_data simple_lib ?F") auto
  obtain df3 where fle: "fix_logic_errors ?F = Inr df3"
    by (cases "fix_logic_errors ?F")
      (auto simp: fix_logic_errors_eq sample_frame_def input_cols_def critical_columns_def
        comparable_def sample_row_cells split: if_splits)
  from out fle have len: "length (rows df3) = 1" and
    cell: "(rows df3 ! 0) ''hint_count'' = VInt 3"
    using hint_count_at_most_hint_total [of ?F df3 simple_lib out]
    by (simp_all add: sample_frame_def sample_row_cells float_of_int64_def)
  from len obtain x where "rows df3 = [x]"
    by (cases "rows df3") auto
  with cell fle run show ?thesis
    by (simp add: col_vals_def)
qed

theorem hint_total_overflow_counterexample:
  "map_sum id (col_vals ''hint_count'')
     (process_data simple_lib
        (sample_frame [sample_row (VInt 1) (VInt 10) (VInt 5) (VFloat (Finite 10000000000000000000))])) =
   Inr [VInt 5] \<and>
   map_sum id (col_vals ''hint_total'')
     (process_data simple_lib
        (sample_frame [sample_row (VInt 1) (VInt 10) (VInt 5) (VFloat (Finite 10000000000000000000))])) =
   Inr [VInt (- 9223372036854775808)] \<and>
   sint (- 9223372036854775808 :: 64 word) < sint (5 :: 64 word)"
proof -
  let ?r = "sample_row (VInt 1) (VInt 10) (VInt 5) (VFloat (Finite 10000000000000000000))"
  show ?thesis
    by (simp add: process_sample1 [OF well_typed_sample_overflow] col_vals_def restrict_row_keep
        keep_cols_mem overflow_sample_cells sint_min_int64)
qed







text \<open>
  C3.  The feature deriver keeps the rows and their other cells, adds (or overwrites) the column
  \<open>hint_independence\<close>, and on every row whose \<open>hint_count\<close> and \<open>hint_total\<close> are
  numbers sets it to \<open>1 - hint_count / effective_hint_total\<close>, where the effective total is
  \<open>hint_total\<close>, or 1 when \<open>hint_total\<close> is 0: for finite numbers this is the rational
  value, and with an infinite cell it is what float arithmetic gives.  In a frame the pipeline
  returns, the rows are the surviving input rows in some arrangement, and each carries this value
  computed from its \<open>hint_total\<close>, which is finite, and its repaired (clamped)
  \<open>hint_count\<close>.  Sample rows: \<open>(2, 4)\<close> gives 0.5 and \<open>(0, 0)\<close> gives 1.
\<close>

theorem hint_independence_formula:
  "(add_hint_independence df = Inr df5 \<longrightarrow>
      columns df5 = with_column ''hint_independence'' (columns df) \<and>
      length (rows df5) = length (rows df) \<and>
      (\<forall>i<length (rows df).
          (\<forall>c. c \<noteq> ''hint_independence'' \<longrightarrow> (rows df5 ! i) c = (rows df ! i) c) \<and>
          (\<forall>a b. num_of ((rows df ! i) ''hint_count'') = Some (Finite a) \<and>
                 num_of ((rows df ! i) ''hint_total'') = Some (Finite b) \<longrightarrow>
                 (rows df5 ! i) ''hint_independence'' =
                   VFloat (Finite (1 - a / effective_hint_total b))) \<and>
          (\<forall>x y. num_of ((rows df ! i) ''hint_count'') = Some x \<and>
                 num_of ((rows df ! i) ''hint_total'') = Some y \<longrightarrow>
                 (rows df5 ! i) ''hint_independence'' =
                   rsub1 (float_div x (effective_total y))))) \<and>
   (process_data L df = Inr out \<longrightarrow>
      (\<exists>rs. mset rs = mset (survivors df) \<and> set rs \<subseteq> set (rows df) \<and>
         list_all2 (\<lambda>r0 r. \<exists>a b c.
             num_of (r0 ''hint_count'') = Some a \<and> num_of (r0 ''hint_total'') = Some (Finite b) \<and>
             min a (Finite b) = Finite c \<and>
             r ''hint_independence'' = VFloat (Finite (1 - c / effective_hint_total b)))
           rs (rows out)))"
proof (intro conjI impI allI)
  assume add: "add_hint_independence df = Inr df5"
  then have df5: "df5 = df\<lparr>columns := with_column ''hint_independence'' (columns df),
      rows := map hint_independence (rows df)\<rparr>"
    by (auto simp: add_hint_independence_eq split: if_splits)
  show "columns df5 = with_column ''hint_independence'' (columns df)"
    and "length (rows df5) = length (rows df)"
    by (simp_all add: df5)
  fix i assume i: "i < length (rows df)"
  then have nth: "rows df5 ! i = hint_independence (rows df ! i)"
    by (simp add: df5)
  show "(rows df5 ! i) c = (rows df ! i) c" if "c \<noteq> ''hint_independence''" for c
    using that by (simp add: nth hint_independence_other)
  show "(rows df5 ! i) ''hint_independence'' = VFloat (Finite (1 - a / effective_hint_total b))"
    if "num_of ((rows df ! i) ''hint_count'') = Some (Finite a) \<and>
        num_of ((rows df ! i) ''hint_total'') = Some (Finite b)"
    for a b
    using that by (simp add: nth hint_independence_def val_div_replace01)
  show "(rows df5 ! i) ''hint_independence'' = rsub1 (float_div x (effective_total y))"
    if "num_of ((rows df ! i) ''hint_count'') = Some x \<and>
        num_of ((rows df ! i) ''hint_total'') = Some y"
    for x y
    using that by (simp add: nth hint_independence_def val_div_replace01_float)
next
  assume run: "process_data L df = Inr out"
  from process_data_aligned [OF run] obtain rs where
    perm: "mset rs = mset (survivors df)" and wt: "list_all (well_typed L) rs"
    and out: "rows out = map (\<lambda>r0. restrict_row keep_cols (repair L r0)) rs"
    by blast
  have "\<exists>a b c.
      num_of (r0 ''hint_count'') = Some a \<and> num_of (r0 ''hint_total'') = Some (Finite b) \<and>
      min a (Finite b) = Finite c \<and>
      restrict_row keep_cols (repair L r0) ''hint_independence'' =
        VFloat (Finite (1 - c / effective_hint_total b))"
    if "r0 \<in> set rs" for r0
  proof -
    from wt that have "well_typed L r0" by (simp add: list_all_iff)
    then show ?thesis
      by (rule well_typed_hints) (auto simp: restrict_row_keep keep_cols_mem)
  qed
  then have "list_all2 (\<lambda>r0 r. \<exists>a b c.
             num_of (r0 ''hint_count'') = Some a \<and> num_of (r0 ''hint_total'') = Some (Finite b) \<and>
             min a (Finite b) = Finite c \<and>
             r ''hint_independence'' = VFloat (Finite (1 - c / effective_hint_total b)))
           rs (rows out)"
    unfolding out list_all2_map_right by (simp add: list_all_iff)
  with perm survivors_mset_subset [OF perm]
  show "\<exists>rs. mset rs = mset (survivors df) \<and> set rs \<subseteq> set (rows df) \<and>
         list_all2 (\<lambda>r0 r. \<exists>a b c.
             num_of (r0 ''hint_count'') = Some a \<and> num_of (r0 ''hint_total'') = Some (Finite b) \<and>
             min a (Finite b) = Finite c \<and>
             r ''hint_independence'' = VFloat (Finite (1 - c / effective_hint_total b)))
           rs (rows out)"
    by blast
qed

lemma add_hint_independence_sample:
  assumes "is_number c" "is_number d"
  shows "add_hint_independence (sample_frame [sample_row a b c d]) =
     Inr \<lparr>columns = with_column ''hint_independence'' input_cols,
           rows = [hint_independence (sample_row a b c d)]\<rparr>"
  using assms
  by (simp add: add_hint_independence_eq sample_frame_def sample_row_cells divisible_def
      is_number_not_str)
    (auto simp: input_cols_def critical_columns_def)

theorem hint_independence_formula_witness:
  "map_sum id (col_vals ''hint_independence'')
     (add_hint_independence (sample_frame [sample_row (VInt 1) (VInt 10) (VInt 2) (VInt 4)])) =
   Inr [VFloat (Finite (1 / 2))] \<and>
   map_sum id (col_vals ''hint_independence'')
     (add_hint_independence (sample_frame [sample_row (VInt 1) (VInt 10) (VInt 0) (VInt 0)])) =
   Inr [VFloat (Finite 1)] \<and>
   map_sum id (col_vals ''hint_independence'')
     (process_data simple_lib (sample_frame [sample_row (VInt 1) (VInt 10) (VInt 2) (VInt 4)])) =
   Inr [VFloat (Finite (1 / 2))] \<and>
   effective_hint_total 4 = 4 \<and> effective_hint_total 0 = 1"
proof -
  let ?r = "sample_row (VInt 1) (VInt 10) (VInt 2) (VInt 4)"
  let ?s = "sample_row (VInt 1) (VInt 10) (VInt 0) (VInt 0)"
  let ?df5 = "\<lparr>columns = with_column ''hint_independence'' input_cols, rows = [hint_independence ?r]\<rparr>"
  let ?dg5 = "\<lparr>columns = with_column ''hint_independence'' input_cols, rows = [hint_independence ?s]\<rparr>"
  let ?out = "\<lparr>columns = keep_cols, rows = [restrict_row keep_cols (repair simple_lib ?r)]\<rparr>"
  let ?out' = "\<lparr>columns = keep_cols, rows = [restrict_row keep_cols (repair simple_lib ?s)]\<rparr>"
  have f: "add_hint_independence (sample_frame [?r]) = Inr ?df5"
    by (rule add_hint_independence_sample) simp_all
  have g: "add_hint_independence (sample_frame [?s]) = Inr ?dg5"
    by (rule add_hint_independence_sample) simp_all
  have p: "process_data simple_lib (sample_frame [?r]) = Inr ?out"
    by (rule process_sample1, rule well_typed_sample_ints)
  have q: "process_data simple_lib (sample_frame [?s]) = Inr ?out'"
    by (rule process_sample1, rule well_typed_sample_ints)
  have "(rows ?df5 ! 0) ''hint_independence'' = VFloat (Finite (1 - 2 / effective_hint_total 4))"
    using hint_independence_formula [of "sample_frame [?r]" ?df5 simple_lib ?out] f p
    by (simp add: sample_frame_def sample_row_cells float_of_int64_def)
  moreover have "(rows ?dg5 ! 0) ''hint_independence'' = VFloat (Finite (1 - 0 / effective_hint_total 0))"
    using hint_independence_formula [of "sample_frame [?s]" ?dg5 simple_lib ?out'] g q
    by (simp add: sample_frame_def sample_row_cells float_of_int64_def)
  ultimately show ?thesis
    by (simp add: f g p col_vals_def effective_hint_total_def restrict_row_keep keep_cols_mem
        repair_hint_independence sample_row_cells float_of_int64_def)
qed





lemma length_survivors:
  assumes "set input_cols \<subseteq> set (columns df)"
  shows "\<exists>df1. dropna critical_columns (remove_duplicates df) = Inr df1 \<and>
     length (rows df1) = length (survivors df)"
  using input_cols_mem(1) [OF assms]
  by (simp add: dropna_def survivors_def complete_def [abs_def])

text \<open>
  C5.  Every frame the pipeline returns has exactly the fourteen columns \<open>user_id\<close>,
  \<open>problem_id\<close>, \<open>template_id\<close>, \<open>skill_id\<close>, \<open>skill_name\<close>, \<open>teacher_id\<close>,
  \<open>student_class_id\<close>, \<open>school_id\<close>, \<open>correct\<close>, \<open>attempt_count\<close>,
  \<open>ms_first_response\<close>, \<open>hint_count\<close>, \<open>hint_total\<close>, \<open>hint_independence\<close>, in that
  order, fourteen cells in every row, and as many rows as are left of the input after
  deduplication and the dropping of rows with a missing critical cell.
\<close>

theorem output_has_the_fourteen_columns:
  assumes "process_data L df = Inr out"
  shows "columns out =
      [''user_id'', ''problem_id'', ''template_id'', ''skill_id'', ''skill_name'',
       ''teacher_id'', ''student_class_id'', ''school_id'', ''correct'', ''attempt_count'',
       ''ms_first_response'', ''hint_count'', ''hint_total'', ''hint_independence''] \<and>
     list_all (\<lambda>cells. length cells = 14) (table out) \<and>
     (\<exists>df1. dropna critical_columns (remove_duplicates df) = Inr df1 \<and>
        length (rows out) = length (rows df1))"
proof -
  note out = process_data_Inr(3) [OF assms]
  have "columns out = keep_cols" by (simp add: out)
  moreover have "length keep_cols = 14" by (simp add: keep_cols_def)
  moreover have "length (rows out) = length (survivors df)" by (simp add: out)
  ultimately show ?thesis
    using length_survivors [OF process_data_Inr(1) [OF assms]]
    by (auto simp: keep_cols_def table_def row_vals_def list_all_iff)
qed

lemma survivors_sample3:
  assumes "c \<noteq> VNaN" "d \<noteq> VNaN"
  shows "survivors (sample_frame [sample_row a b c d, sample_row a b c d, sample_row a b VNaN d]) =
     [sample_row a b c d]"
  using assms
  by (simp add: survivors_def remove_duplicates_def drop_duplicates_def sample_frame_def
      input_cols_not_Nil sample_row_vals sample_complete)
    (simp add: complete_def critical_columns_def sample_row_cells)

theorem output_has_the_fourteen_columns_witness:
  "map_sum id columns
     (process_data simple_lib
        (sample_frame [sample_row (VInt 1) (VInt 10) (VInt 2) (VInt 4),
                       sample_row (VInt 1) (VInt 10) (VInt 2) (VInt 4),
                       sample_row (VInt 1) (VInt 10) VNaN (VInt 4)])) =
   Inr [''user_id'', ''problem_id'', ''template_id'', ''skill_id'', ''skill_name'',
        ''teacher_id'', ''student_class_id'', ''school_id'', ''correct'', ''attempt_count'',
        ''ms_first_response'', ''hint_count'', ''hint_total'', ''hint_independence''] \<and>
   row_count
     (process_data simple_lib
        (sample_frame [sample_row (VInt 1) (VInt 10) (VInt 2) (VInt 4),
                       sample_row (VInt 1) (VInt 10) (VInt 2) (VInt 4),
                       sample_row (VInt 1) (VInt 10) VNaN (VInt 4)])) = Inr 1"
proof -
  let ?r = "sample_row (VInt 1) (VInt 10) (VInt 2) (VInt 4)"
  let ?F = "sample_frame [?r, ?r, sample_row (VInt 1) (VInt 10) VNaN (VInt 4)]"
  let ?out = "\<lparr>columns = keep_cols, rows = [restrict_row keep_cols (repair simple_lib ?r)]\<rparr>"
  have cols: "set input_cols \<subseteq> set (columns ?F)"
    by (simp add: sample_frame_def)
  have wt: "well_typed simple_lib ?r"
    by (rule well_typed_sample_ints)
  from process_data_well_typed [OF cols, of simple_lib]
  have run: "process_data simple_lib ?F = Inr ?out"
    by (simp add: survivors_sample3 wt)
  from output_has_the_fourteen_columns [OF run] show ?thesis
    by (simp add: run row_count_def)
qed

text \<open>
  A number cell is a small whole number when its value is an integer of magnitude below
  \<open>2^53\<close>: a float holds every such integer exactly, and the cast to \<^verbatim>\<open>int64\<close> keeps it.
  Cells that are no finite number are not restricted.
\<close>

definition small_whole :: "val \<Rightarrow> bool" where
  "small_whole v =
     (case num_of v of Some (Finite q) \<Rightarrow> of_int (trunc q) = q \<and> \<bar>q\<bar> < 2 ^ 53 | _ \<Rightarrow> True)"

text \<open>What a row of a returned frame looks like when its hint cells came from small whole numbers.\<close>

definition settled :: "row \<Rightarrow> bool" where
  "settled x \<longleftrightarrow>
     (\<forall>c\<in>set str_cols. is_str (x c)) \<and>
     (x ''correct'' = VInt 0 \<or> x ''correct'' = VInt 1) \<and>
     (\<exists>n. x ''attempt_count'' = VInt n) \<and>
     (\<exists>t. x ''ms_first_response'' = VInt t \<and> sint t \<le> 3600) \<and>
     (\<exists>h t. x ''hint_count'' = VInt h \<and> x ''hint_total'' = VInt t \<and> sint h \<le> sint t \<and>
        x ''hint_independence'' =
          VFloat (Finite (1 - of_int (sint h) / effective_hint_total (of_int (sint t))))) \<and>
     (\<forall>c. c \<notin> set keep_cols \<longrightarrow> x c = VNaN)"

lemma astype_str_is_str: "is_str v \<Longrightarrow> astype_str L v = v"
  by (cases v) simp_all

lemma keep_cols_split:
  "c \<in> set keep_cols \<longleftrightarrow> c \<in> set str_cols \<or> c \<in> set int_cols \<or> c = ''hint_independence''"
  by (auto simp: keep_cols_def str_cols_def int_cols_def)

lemma repair_other:
  assumes "c \<notin> set keep_cols"
  shows "repair L r c = r c"
proof -
  from assms have "c \<notin> set str_cols" "c \<notin> set int_cols" "c \<noteq> ''hint_independence''"
    by (simp_all add: keep_cols_split)
  moreover from this(2) have "c \<noteq> ''ms_first_response''" "c \<noteq> ''correct''" "c \<noteq> ''hint_count''"
    by (auto simp: int_cols_def)
  ultimately show ?thesis
    by (simp add: repair_def prepare_def convert_row_apply hint_independence_other
        normalize_row_other coerce_row_other clamp_hint_other fill_correct_other)
qed

lemma settled_repair:
  assumes "settled x"
  shows "repair L x = x"
proof
  fix c
  from assms obtain n t h u where
    str: "\<forall>c\<in>set str_cols. is_str (x c)" and
    cor: "x ''correct'' = VInt 0 \<or> x ''correct'' = VInt 1" and
    att: "x ''attempt_count'' = VInt n" and
    ms: "x ''ms_first_response'' = VInt t" "sint t \<le> 3600" and
    hc: "x ''hint_count'' = VInt h" and ht: "x ''hint_total'' = VInt u" and le: "sint h \<le> sint u" and
    hi: "x ''hint_independence'' =
      VFloat (Finite (1 - of_int (sint h) / effective_hint_total (of_int (sint u))))"
    unfolding settled_def by blast
  consider "c \<in> set str_cols" | "c = ''correct''" | "c = ''attempt_count''"
    | "c = ''ms_first_response''" | "c = ''hint_count''" | "c = ''hint_total''"
    | "c = ''hint_independence''" | "c \<notin> set keep_cols"
    by (auto simp: keep_cols_split int_cols_def)
  then show "repair L x c = x c"
  proof cases
    case 1
    with str show ?thesis by (simp add: repair_str astype_str_is_str)
  next
    case 2
    with cor show ?thesis by (auto simp: repair_correct int_cast_def)
  next
    case 3
    with att show ?thesis by (simp add: repair_attempt_count)
  next
    case 4
    with ms show ?thesis
      by (simp add: repair_ms_first_response fillna0_def clamp_max_def default_max_seconds_def)
  next
    case 5
    with hc ht le show ?thesis by (simp add: repair_hint_count float_of_int64_def)
  next
    case 6
    with ht show ?thesis by (simp add: repair_hint_total)
  next
    case 7
    have "val_div (VInt h) (replace01 (VInt u)) =
        Inr (Some (Finite (of_int (sint h) / effective_hint_total (of_int (sint u)))))"
      by (rule val_div_replace01) (simp_all add: float_of_int64_def)
    with 7 hc ht le hi show ?thesis
      by (simp add: repair_hint_independence float_of_int64_def)
  next
    case 8
    then show ?thesis by (rule repair_other)
  qed
qed

lemma settled_restrict: "settled x \<Longrightarrow> restrict_row keep_cols x = x"
  by (auto simp: settled_def restrict_row_def fun_eq_iff)

lemma settled_typed:
  assumes "settled x"
  shows "complete critical_columns x" and "well_typed L x"
proof -
  from assms have str: "\<forall>c\<in>set str_cols. x c \<noteq> VNaN"
    unfolding settled_def by auto
  from assms obtain h t n m where hc: "x ''hint_count'' = VInt h" and ht: "x ''hint_total'' = VInt t"
    and cor: "x ''correct'' = VInt 0 \<or> x ''correct'' = VInt 1"
    and att: "x ''attempt_count'' = VInt n" and ms: "x ''ms_first_response'' = VInt m"
    unfolding settled_def by blast
  have cc: "critical_columns = str_cols @ [''hint_count'', ''hint_total'']"
    by (simp add: critical_columns_def str_cols_def)
  show "complete critical_columns x"
    unfolding cc complete_def list_all_iff using str hc ht by auto
  from hc ht cor att ms show "well_typed L x"
    by (auto simp: well_typed_def int_castable_def int_parsable_prepare int_parsable_def
        clamp_max_def fillna0_def)
qed

lemma small_whole_int64:
  assumes "of_int (trunc q) = q" "\<bar>q\<bar> < 2 ^ 53"
  shows "of_int (sint (float_to_int64 q)) = q"
proof -
  have up: "trunc q < 2 ^ 63"
    using assms(2) by (intro trunc_below_int64) simp
  have "- (2 ^ 53) \<le> q"
    using assms(2) by simp
  then have "trunc (of_int (- (2 ^ 53))) \<le> trunc q"
    by (intro trunc_mono) simp
  then have "- (2 ^ 53) \<le> trunc q"
    unfolding trunc_of_int .
  then have "- (2 ^ 63) \<le> trunc q"
    by simp
  with up have "sint (float_to_int64 q) = trunc q"
    by (simp add: sint_float_to_int64)
  with assms(1) show ?thesis by simp
qed

lemma repaired_settled:
  assumes wt: "well_typed L r"
    and wh: "small_whole (r ''hint_count'')" "small_whole (r ''hint_total'')"
  shows "settled (restrict_row keep_cols (repair L r))"
proof -
  let ?x = "restrict_row keep_cols (repair L r)"
  from wt obtain a b c where a: "num_of (r ''hint_count'') = Some a"
    and b: "num_of (r ''hint_total'') = Some (Finite b)"
    and c: "min a (Finite b) = Finite c"
    and hc: "repair L r ''hint_count'' = VInt (float_to_int64 c)"
    and ht: "repair L r ''hint_total'' = VInt (float_to_int64 b)"
    and hi: "repair L r ''hint_independence'' = VFloat (Finite (1 - c / effective_hint_total b))"
    by (rule well_typed_hints)
  from wh(2) b have wb: "of_int (trunc b) = b" "\<bar>b\<bar> < 2 ^ 53"
    by (simp_all add: small_whole_def)
  have wc: "of_int (trunc c) = c \<and> \<bar>c\<bar> < 2 ^ 53"
  proof (cases "a \<le> Finite b")
    case True
    with c have "a = Finite c" by (simp add: min_def)
    with wh(1) a show ?thesis by (simp add: small_whole_def)
  next
    case False
    with c have "c = b" by (simp add: min_def)
    with wb show ?thesis by simp
  qed
  have vb: "of_int (sint (float_to_int64 b)) = b"
    using wb by (rule small_whole_int64)
  have vc: "of_int (sint (float_to_int64 c)) = c"
    using wc by (intro small_whole_int64) simp_all
  have 1: "\<forall>c\<in>set str_cols. is_str (?x c)"
    by (simp add: restrict_row_def keep_cols_split repair_str)
  have 2: "?x ''correct'' = VInt 0 \<or> ?x ''correct'' = VInt 1"
    by (simp add: restrict_row_keep keep_cols_mem repair_correct)
  have 3: "\<exists>n. ?x ''attempt_count'' = VInt n"
    by (simp add: restrict_row_keep keep_cols_mem repair_attempt_count to_int_def)
  have 4: "\<exists>t. ?x ''ms_first_response'' = VInt t \<and> sint t \<le> 3600"
  proof -
    from wt obtain x q where q: "min x (Finite 3600) = Finite q"
      and ms: "repair L r ''ms_first_response'' = VInt (float_to_int64 q)"
      by (rule well_typed_ms_first_response)
    have "sint (float_to_int64 q) \<le> sint (float_to_int64 3600)"
      by (intro float_to_int64_mono min_Finite_le [OF q]) simp
    then have "sint (float_to_int64 q) \<le> 3600"
      by (simp add: sint_float_to_int64)
    with ms show ?thesis
      by (simp add: restrict_row_keep keep_cols_mem)
  qed
  have le: "sint (float_to_int64 c) \<le> sint (float_to_int64 b)"
    using wb(2) by (intro float_to_int64_mono min_Finite_le [OF c] trunc_below_int64) simp
  have 5: "\<exists>h t. ?x ''hint_count'' = VInt h \<and> ?x ''hint_total'' = VInt t \<and> sint h \<le> sint t \<and>
        ?x ''hint_independence'' =
          VFloat (Finite (1 - of_int (sint h) / effective_hint_total (of_int (sint t))))"
    using hc ht hi le by (simp add: restrict_row_keep keep_cols_mem vb vc)
  have 6: "\<forall>c. c \<notin> set keep_cols \<longrightarrow> ?x c = VNaN"
    by (simp add: restrict_row_def)
  from 1 2 3 4 5 6 show ?thesis
    unfolding settled_def by blast
qed

lemma drop_dups_distinct:
  assumes "distinct (map (row_vals cs) rs)" and "set (map (row_vals cs) rs) \<inter> set seen = {}"
  shows "drop_dups cs seen rs = rs"
  using assms by (induction rs arbitrary: seen) auto

lemma row_key_restrict:
  "row_key order_cols (restrict_row keep_cols r) = row_key order_cols r"
  by (simp add: row_key_def order_cols_def restrict_row_keep keep_cols_mem)

lemma input_cols_keep_cols: "set input_cols \<subseteq> set keep_cols"
  by (auto simp: input_cols_def critical_columns_def keep_cols_def)

lemma keep_cols_not_Nil: "keep_cols \<noteq> []"
  by (simp add: keep_cols_def)

lemma settled_frame_fixed:
  assumes st: "\<forall>x\<in>set R. settled x"
    and srt: "sorted (map (row_key order_cols) R)"
    and dist: "distinct (map (row_vals keep_cols) R)"
  shows "process_data L \<lparr>columns = keep_cols, rows = R\<rparr> = Inr \<lparr>columns = keep_cols, rows = R\<rparr>"
proof -
  let ?out = "\<lparr>columns = keep_cols, rows = R\<rparr>"
  have cols: "set input_cols \<subseteq> set (columns ?out)"
    by (simp add: input_cols_keep_cols)
  have "drop_dups keep_cols [] R = R"
    using dist by (simp add: drop_dups_distinct)
  then have "rows (remove_duplicates ?out) = R"
    by (simp add: remove_duplicates_def drop_duplicates_def)
  moreover have "filter (complete critical_columns) R = R"
    using st settled_typed(1) by (simp add: filter_id_conv)
  ultimately have surv: "survivors ?out = R"
    by (simp add: survivors_def)
  have typed: "list_all (well_typed L) (survivors ?out)"
    unfolding surv using st settled_typed(2) [of _ L] by (simp add: list_all_iff)
  have rep: "map (repair L) R = R"
    using st by (simp add: map_idI settled_repair)
  have sort: "sort_key (row_key order_cols) R = R"
    using srt by (rule sort_key_id_if_sorted)
  have res: "map (restrict_row keep_cols) R = R"
    using st by (simp add: map_idI settled_restrict)
  show ?thesis
    unfolding process_data_well_typed [OF cols typed] surv by (simp add: rep sort res)
qed

text \<open>
  C6, as the code has it.  Running the pipeline on its own output returns that output again
  whenever the output has no two identical rows and every \<open>hint_count\<close> and \<open>hint_total\<close> of
  the input that is a finite number is a whole number of magnitude below \<open>2^53\<close>.  (Rows that
  the first run made identical are removed by the second run's deduplication;
  \<open>hint_independence\<close> is recomputed from the hint counts as the first run cast them to
  \<^verbatim>\<open>int64\<close>, which changes a fractional count and, by overflow, a count of \<open>2^63\<close> or
  more.)
\<close>

theorem process_data_twice:
  assumes run: "process_data L df = Inr out"
    and dist: "distinct (table out)"
    and wh: "\<forall>r\<in>set (rows df). small_whole (r ''hint_count'') \<and> small_whole (r ''hint_total'')"
  shows "process_data L out = Inr out"
proof -
  let ?Y = "sort_key (row_key order_cols) (map (repair L) (survivors df))"
  let ?R = "map (restrict_row keep_cols) ?Y"
  have out: "out = \<lparr>columns = keep_cols, rows = ?R\<rparr>"
    by (rule process_data_Inr(3) [OF run])
  have typed: "list_all (well_typed L) (survivors df)"
    by (rule process_data_Inr(2) [OF run])
  have st: "\<forall>x\<in>set ?R. settled x"
  proof
    fix x assume "x \<in> set ?R"
    then obtain r0 where r0: "r0 \<in> set (survivors df)"
      and x: "x = restrict_row keep_cols (repair L r0)"
      by auto
    from r0 typed have "well_typed L r0" by (simp add: list_all_iff)
    moreover from r0 wh have "small_whole (r0 ''hint_count'')" "small_whole (r0 ''hint_total'')"
      using survivors_subset by blast+
    ultimately show "settled x"
      unfolding x by (rule repaired_settled)
  qed
  have "map (row_key order_cols) ?R = map (row_key order_cols) ?Y"
    by (simp add: row_key_restrict comp_def)
  moreover have "sorted (map (row_key order_cols) ?Y)"
    by (rule sorted_sort_key)
  ultimately have srt: "sorted (map (row_key order_cols) ?R)"
    by (simp only:)
  from dist have "distinct (map (row_vals keep_cols) ?R)"
    by (simp add: out table_def)
  from settled_frame_fixed [OF st srt this] show ?thesis
    by (simp add: out)
qed

theorem process_data_twice_witness:
  "map_sum id table
     (process_data simple_lib (sample_frame [sample_row (VInt 2) (VInt 10000) (VInt 5) (VInt 3)])) =
   Inr [[VStr ''7'', VStr ''20'', VStr ''t3'', VStr ''2.0'', VStr ''Addition'', VStr ''k5'',
         VStr ''c6'', VStr ''s9'', VInt 1, VInt 1, VInt 3600, VInt 3, VInt 3, VFloat (Finite 0)]] \<and>
   (case process_data simple_lib (sample_frame [sample_row (VInt 2) (VInt 10000) (VInt 5) (VInt 3)]) of
      Inl e \<Rightarrow> False
    | Inr out \<Rightarrow> process_data simple_lib out = Inr out)"
proof -
  let ?r = "sample_row (VInt 2) (VInt 10000) (VInt 5) (VInt 3)"
  let ?out = "\<lparr>columns = keep_cols, rows = [restrict_row keep_cols (repair simple_lib ?r)]\<rparr>"
  have run: "process_data simple_lib (sample_frame [?r]) = Inr ?out"
    by (rule process_sample1, rule well_typed_sample_ints)
  have dist: "distinct (table ?out)"
    by (simp add: table_def)
  have wh: "\<forall>r\<in>set (rows (sample_frame [?r])).
      small_whole (r ''hint_count'') \<and> small_whole (r ''hint_total'')"
    by (simp add: sample_frame_def sample_row_cells small_whole_def float_of_int64_def)
  have tab: "map_sum id table (process_data simple_lib (sample_frame [?r])) =
      Inr [[VStr ''7'', VStr ''20'', VStr ''t3'', VStr ''2.0'', VStr ''Addition'', VStr ''k5'',
         VStr ''c6'', VStr ''s9'', VInt 1, VInt 1, VInt 3600, VInt 3, VInt 3, VFloat (Finite 0)]]"
    by (subst sample_output [OF well_typed_sample_ints])
      (simp add: int_cast_def clamp_max_def fillna0_def default_max_seconds_def float_of_int64_def)
  from process_data_twice [OF run dist wh] tab show ?thesis
    by (simp add: run)
qed

text \<open>
  Three inputs on which a second run changes the output: two rows that the first run makes
  identical, a \<open>hint_total\<close> beyond the 64-bit range, which the first run casts to the least
  \<^verbatim>\<open>int64\<close> and the second run then clamps \<open>hint_count\<close> to, and a fractional
  \<open>hint_count\<close>, from whose truncation the second run recomputes \<open>hint_independence\<close>.
\<close>

theorem pipeline_rerun_counterexample:
  "row_count
     (process_data simple_lib
        (sample_frame [sample_row (VInt 1) (VInt 4000) (VInt 1) (VInt 4),
                       sample_row (VInt 1) (VInt 5000) (VInt 1) (VInt 4)])) = Inr 2 \<and>
   row_count
     (run_twice simple_lib
        (sample_frame [sample_row (VInt 1) (VInt 4000) (VInt 1) (VInt 4),
                       sample_row (VInt 1) (VInt 5000) (VInt 1) (VInt 4)])) = Inr 1 \<and>
   map_sum id (col_vals ''hint_count'')
     (process_data simple_lib
        (sample_frame [sample_row (VInt 1) (VInt 10) (VInt 5) (VFloat (Finite 10000000000000000000))])) =
   Inr [VInt 5] \<and>
   map_sum id (col_vals ''hint_count'')
     (run_twice simple_lib
        (sample_frame [sample_row (VInt 1) (VInt 10) (VInt 5) (VFloat (Finite 10000000000000000000))])) =
   Inr [VInt (- 9223372036854775808)] \<and>
   map_sum id (col_vals ''hint_independence'')
     (process_data simple_lib
        (sample_frame [sample_row (VInt 1) (VInt 10) (VFloat (Finite (1 / 2))) (VInt 4)])) =
   Inr [VFloat (Finite (7 / 8))] \<and>
   map_sum id (col_vals ''hint_independence'')
     (run_twice simple_lib
        (sample_frame [sample_row (VInt 1) (VInt 10) (VFloat (Finite (1 / 2))) (VInt 4)])) =
   Inr [VFloat (Finite 1)]"
proof -
  let ?r1 = "sample_row (VInt 1) (VInt 4000) (VInt 1) (VInt 4)"
  let ?r2 = "sample_row (VInt 1) (VInt 5000) (VInt 1) (VInt 4)"
  let ?x1 = "restrict_row keep_cols (repair simple_lib ?r1)"
  let ?x2 = "restrict_row keep_cols (repair simple_lib ?r2)"
  let ?out = "\<lparr>columns = keep_cols, rows = [?x1, ?x2]\<rparr>"
  have st: "settled ?x1"
    by (rule repaired_settled, rule well_typed_sample_ints)
      (simp_all add: sample_row_cells small_whole_def float_of_int64_def)
  have cols: "set input_cols \<subseteq> set (columns ?out)"
    by (simp add: input_cols_keep_cols)
  have surv: "survivors ?out = [?x1]"
    using settled_typed(1) [OF st]
    by (simp add: survivors_def remove_duplicates_def drop_duplicates_def keep_cols_not_Nil
        capped_sample_cells)
  have "list_all (well_typed simple_lib) (survivors ?out)"
    using settled_typed(2) [OF st, of simple_lib] by (simp add: surv)
  from process_data_well_typed [OF cols this]
  have "row_count (process_data simple_lib ?out) = Inr 1"
    by (simp add: surv row_count_def)
  then have dup: "row_count (process_data simple_lib (sample_frame [?r1, ?r2])) = Inr 2 \<and>
      row_count (run_twice simple_lib (sample_frame [?r1, ?r2])) = Inr 1"
    by (simp add: capped_sample_rows run_twice_def row_count_def)
  let ?o = "sample_row (VInt 1) (VInt 10) (VInt 5) (VFloat (Finite 10000000000000000000))"
  have over1: "map_sum id (col_vals ''hint_count'') (process_data simple_lib (sample_frame [?o])) =
      Inr [VInt 5]"
    by (simp add: process_sample1 [OF well_typed_sample_overflow] col_vals_def restrict_row_keep
        keep_cols_mem overflow_sample_cells)
  have "repair simple_lib (restrict_row keep_cols (repair simple_lib ?o)) ''hint_count'' =
      VInt (- 9223372036854775808)"
    by (subst repair_hint_count)
      (simp add: restrict_row_keep keep_cols_mem overflow_sample_cells float_of_int64_def
        sint_min_int64)
  then have over2: "map_sum id (col_vals ''hint_count'') (run_twice simple_lib (sample_frame [?o])) =
      Inr [VInt (- 9223372036854775808)]"
    by (simp add: run_twice_sample [OF well_typed_sample_overflow] col_vals_def restrict_row_keep
        keep_cols_mem)
  let ?f = "sample_row (VInt 1) (VInt 10) (VFloat (Finite (1 / 2))) (VInt 4)"
  have frac1: "map_sum id (col_vals ''hint_independence'')
      (process_data simple_lib (sample_frame [?f])) = Inr [VFloat (Finite (7 / 8))]"
    by (simp add: process_sample1 [OF well_typed_sample_fraction] col_vals_def restrict_row_keep
        keep_cols_mem fraction_sample_cells)
  have "repair simple_lib (restrict_row keep_cols (repair simple_lib ?f)) ''hint_independence'' =
      VFloat (Finite 1)"
    by (subst repair_hint_independence)
      (simp add: restrict_row_keep keep_cols_mem fraction_sample_cells float_of_int64_def)
  then have frac2: "map_sum id (col_vals ''hint_independence'')
      (run_twice simple_lib (sample_frame [?f])) = Inr [VFloat (Finite 1)]"
    by (simp add: run_twice_sample [OF well_typed_sample_fraction] col_vals_def restrict_row_keep
        keep_cols_mem)
  from dup over1 over2 frac1 frac2 show ?thesis
    by simp
qed

lemma table_remove_duplicates:
  "columns df \<noteq> [] \<Longrightarrow> table (remove_duplicates df) = rev (remdups (rev (table df)))"
  by (simp add: remove_duplicates_def drop_duplicates_def table_def drop_dups_first_occurrences)

text \<open>
  C7, as the code has it.  On a frame with at least one column, the deduplication stage keeps
  the columns and returns rows that are pairwise different in at least one cell: of the rows that
  are equal in every column it keeps the first, and the kept rows stay in their input order.
  Deduplication is the first stage, on the raw cells, so the frame the pipeline finally returns
  can still hold identical rows: rows that differ only in cells the later stages make equal.
\<close>

theorem remove_duplicates_keeps_first_occurrences:
  assumes "columns df \<noteq> []"
  shows "columns (remove_duplicates df) = columns df \<and>
     distinct (table (remove_duplicates df)) \<and>
     set (table (remove_duplicates df)) = set (table df) \<and>
     table (remove_duplicates df) = rev (remdups (rev (table df)))"
  using assms by (simp add: table_remove_duplicates)

theorem remove_duplicates_keeps_first_occurrences_witness:
  "table (remove_duplicates
      (sample_frame [sample_row (VInt 1) (VInt 10) (VInt 2) (VInt 4),
                     sample_row (VInt 0) (VInt 10) (VInt 2) (VInt 4),
                     sample_row (VInt 1) (VInt 10) (VInt 2) (VInt 4)])) =
   [[VInt 7, VInt 20, VStr ''t3'', VFloat (Finite 2), VStr ''Addition'', VStr ''k5'', VStr ''c6'',
     VStr ''s9'', VInt 2, VInt 4, VInt 1, VInt 1, VInt 10],
    [VInt 7, VInt 20, VStr ''t3'', VFloat (Finite 2), VStr ''Addition'', VStr ''k5'', VStr ''c6'',
     VStr ''s9'', VInt 2, VInt 4, VInt 0, VInt 1, VInt 10]]"
proof -
  let ?F = "sample_frame [sample_row (VInt 1) (VInt 10) (VInt 2) (VInt 4),
                     sample_row (VInt 0) (VInt 10) (VInt 2) (VInt 4),
                     sample_row (VInt 1) (VInt 10) (VInt 2) (VInt 4)]"
  have "columns ?F \<noteq> []"
    by (simp add: sample_frame_def input_cols_not_Nil)
  from remove_duplicates_keeps_first_occurrences [OF this]
  have "table (remove_duplicates ?F) = rev (remdups (rev (table ?F)))"
    by blast
  then show ?thesis
    by (simp add: table_def sample_frame_def sample_row_vals)
qed

theorem pipeline_output_duplicate_counterexample:
  "map_sum id table
     (process_data simple_lib
        (sample_frame [sample_row (VInt 1) (VInt 4000) (VInt 1) (VInt 4),
                       sample_row (VInt 1) (VInt 5000) (VInt 1) (VInt 4)])) =
   Inr [[VStr ''7'', VStr ''20'', VStr ''t3'', VStr ''2.0'', VStr ''Addition'', VStr ''k5'',
         VStr ''c6'', VStr ''s9'', VInt 1, VInt 1, VInt 3600, VInt 1, VInt 4, VFloat (Finite (3 / 4))],
        [VStr ''7'', VStr ''20'', VStr ''t3'', VStr ''2.0'', VStr ''Addition'', VStr ''k5'',
         VStr ''c6'', VStr ''s9'', VInt 1, VInt 1, VInt 3600, VInt 1, VInt 4, VFloat (Finite (3 / 4))]]"
  by (simp add: capped_sample_rows table_def capped_sample_cells)

text \<open>
  C8 says that no stage raises and that every non-numeric value is repaired silently.  The code
  does not keep this: \<open>remove_missing_values\<close> casts \<open>correct\<close> with
  \<^verbatim>\<open>astype(int)\<close> and \<open>fix_logic_errors\<close> compares \<open>hint_count\<close> with \<open>hint_total\<close>
  before any numeric coercion, although \<open>convert_data_types\<close> later coerces the same columns
  with \<^verbatim>\<open>pd.to_numeric(errors='coerce')\<close>; and that coercion lets an infinity through to
  \<^verbatim>\<open>astype(int)\<close>.  On the sample row, a text \<open>correct\<close> raises \<open>ValueError\<close>, a text
  \<open>hint_count\<close> raises \<open>TypeError\<close>, and an infinite \<open>ms_first_response\<close> (which
  \<^verbatim>\<open>read_csv\<close> delivers for the text \<open>-inf\<close>) raises \<open>ValueError\<close>.
\<close>

theorem process_data_raises_on_text:
  "process_data simple_lib
     (sample_frame [sample_row (VStr ''abc'') (VInt 10) (VInt 1) (VInt 3)]) = Inl ValueError \<and>
   process_data simple_lib
     (sample_frame [sample_row (VInt 1) (VInt 10) (VStr ''abc'') (VInt 3)]) = Inl TypeError \<and>
   process_data simple_lib
     (sample_frame [sample_row (VInt 1) (VFloat NegInf) (VInt 1) (VInt 3)]) = Inl ValueError"
proof -
  have cols: "set input_cols \<subseteq> set (columns (sample_frame rs))" for rs
    by (simp add: sample_frame_def)
  have 1: "process_data simple_lib
     (sample_frame [sample_row (VStr ''abc'') (VInt 10) (VInt 1) (VInt 3)]) = Inl ValueError"
    unfolding process_data_eq [OF cols]
    by (simp add: survivors_sample1 sample_row_cells int_castable_def cast_error_def simple_lib_abc)
  have 2: "process_data simple_lib
     (sample_frame [sample_row (VInt 1) (VInt 10) (VStr ''abc'') (VInt 3)]) = Inl TypeError"
    unfolding process_data_eq [OF cols]
    by (simp add: survivors_sample1 sample_row_cells int_castable_def)
  have 3: "process_data simple_lib
     (sample_frame [sample_row (VInt 1) (VFloat NegInf) (VInt 1) (VInt 3)]) = Inl ValueError"
    unfolding process_data_eq [OF cols]
    by (simp add: survivors_sample1 sample_row_cells int_castable_def int_parsable_prepare
        int_parsable_def fillna0_def clamp_max_def)
  from 1 2 3 show ?thesis by simp
qed

lemma convert_row_idem:
  "convert_row L cs (convert_row L cs r) = convert_row L cs r"
proof
  fix c
  have "astype_str L (astype_str L v) = astype_str L v" for v
    using astype_str_idem [of L] by (simp add: fun_eq_iff)
  moreover have "to_int L (to_int L v) = to_int L v" for v
    using to_int_idem [of L] by (simp add: fun_eq_iff)
  ultimately show "convert_row L cs (convert_row L cs r) c = convert_row L cs r c"
    by (simp add: convert_row_apply)
qed

lemma int_parsable_row_convert_row:
  "int_parsable_row L (filter (\<lambda>c. c \<in> set cs) int_cols) (convert_row L cs r)"
  using str_int_cols_disjoint
  by (auto simp: int_parsable_row_def list_all_iff convert_row_apply)

lemma trunc_five_halves: "trunc (5 / 2) = 2"
  by code_simp

text \<open>
  C9.  The type-coercion stage is idempotent: whenever \<open>convert_data_types\<close> succeeds on a
  frame, applying it to its own result succeeds and returns that result unchanged.
\<close>

theorem convert_data_types_idempotent:
  assumes "convert_data_types L df = Inr df1"
  shows "convert_data_types L df1 = Inr df1"
proof -
  from assms have cols: "set str_cols \<subseteq> set (columns df)"
    and df1: "df1 = df\<lparr>rows := map (convert_row L (columns df)) (rows df)\<rparr>"
    by (auto simp: convert_data_types_eq split: if_splits)
  show ?thesis
    unfolding df1 using cols
    by (simp add: convert_data_types_eq convert_row_idem comp_def list_all_iff
        int_parsable_row_convert_row)
qed

lemma convert_sample_table:
  "map_sum id table
     (convert_data_types simple_lib
        (sample_frame [sample_row VNaN (VStr ''abc'') (VFloat (Finite (5 / 2))) (VInt 3)])) =
   Inr [[VStr ''7'', VStr ''20'', VStr ''t3'', VStr ''2.0'', VStr ''Addition'', VStr ''k5'',
         VStr ''c6'', VStr ''s9'', VInt 2, VInt 3, VInt 0, VInt 1, VInt 0]]"
proof -
  let ?r = "sample_row VNaN (VStr ''abc'') (VFloat (Finite (5 / 2))) (VInt 3)"
  have sub: "set str_cols \<subseteq> set input_cols" "set int_cols \<subseteq> set input_cols"
    by (simp_all add: input_cols_def critical_columns_def str_cols_def int_cols_def)
  have ok: "int_parsable_row simple_lib int_cols ?r"
    by (simp add: int_parsable_row_def int_cols_def sample_row_cells int_parsable_def
        simple_lib_abc)
  have cells: "row_vals input_cols (convert_row simple_lib input_cols ?r) =
      [VStr ''7'', VStr ''20'', VStr ''t3'', VStr ''2.0'', VStr ''Addition'', VStr ''k5'',
         VStr ''c6'', VStr ''s9'', VInt 2, VInt 3, VInt 0, VInt 1, VInt 0]"
    by (simp add: row_vals_def input_cols_def critical_columns_def convert_row_apply
        str_cols_def int_cols_def sample_row_cells str_of_int_7 str_of_int_20 str_of_float_2
        to_int_def int_cast_def simple_lib_abc float_to_int64_def trunc_five_halves)
  show ?thesis
    using sub ok
    by (simp add: convert_data_types_eq sample_frame_def table_def filter_int_cols_present cells)
qed

theorem convert_data_types_idempotent_witness:
  "map_sum id table
     (convert_data_types simple_lib
        (sample_frame [sample_row VNaN (VStr ''abc'') (VFloat (Finite (5 / 2))) (VInt 3)])) =
   Inr [[VStr ''7'', VStr ''20'', VStr ''t3'', VStr ''2.0'', VStr ''Addition'', VStr ''k5'',
         VStr ''c6'', VStr ''s9'', VInt 2, VInt 3, VInt 0, VInt 1, VInt 0]] \<and>
   (case convert_data_types simple_lib
        (sample_frame [sample_row VNaN (VStr ''abc'') (VFloat (Finite (5 / 2))) (VInt 3)]) of
      Inl e \<Rightarrow> False
    | Inr df1 \<Rightarrow> convert_data_types simple_lib df1 = Inr df1)"
proof -
  obtain df1 where ok: "convert_data_types simple_lib
        (sample_frame [sample_row VNaN (VStr ''abc'') (VFloat (Finite (5 / 2))) (VInt 3)]) = Inr df1"
    using convert_sample_table by (cases "convert_data_types simple_lib
        (sample_frame [sample_row VNaN (VStr ''abc'') (VFloat (Finite (5 / 2))) (VInt 3)])") auto
  from convert_data_types_idempotent [OF ok] ok convert_sample_table show ?thesis
    by simp
qed

lemma row_key_order_cols:
  "row_key order_cols r =
     row_key [''user_id'', ''problem_id''] r @ [sort_key_of (r ''ms_first_response'')]"
  by (simp add: row_key_def order_cols_def)

lemma append_single_le:
  fixes a b :: "'b::linorder"
  shows "k @ [a] \<le> k @ [b] \<longleftrightarrow> a \<le> b"
  by (induction k) auto

lemma sorted_common_prefix:
  fixes f :: "'a \<Rightarrow> 'b::linorder"
  assumes "sorted (map (\<lambda>x. k @ [f x]) xs)"
  shows "sorted (map f xs)"
  using assms by (induction xs) (auto simp: append_single_le)

lemma group_monotonic:
  assumes srt: "sorted (map (row_key order_cols) rs)"
    and hom: "list_all (\<lambda>r. is_number (r ''ms_first_response'')) rs \<or>
      list_all (\<lambda>r. is_str (r ''ms_first_response'')) rs"
  shows "is_monotonic_increasing
     (map (\<lambda>r. r ''ms_first_response'') (filter (\<lambda>r. row_key [''user_id'', ''problem_id''] r = k) rs))"
proof -
  let ?g = "filter (\<lambda>r. row_key [''user_id'', ''problem_id''] r = k) rs"
  from srt have "sorted (map (row_key order_cols) ?g)"
    by (rule sorted_filter)
  moreover have "map (row_key order_cols) ?g = map (\<lambda>r. k @ [sort_key_of (r ''ms_first_response'')]) ?g"
    by (simp add: row_key_order_cols)
  ultimately have "sorted (map (\<lambda>r. sort_key_of (r ''ms_first_response'')) ?g)"
    using sorted_common_prefix [of k "\<lambda>r. sort_key_of (r ''ms_first_response'')" ?g] by simp
  moreover from hom have "list_all (\<lambda>r. is_number (r ''ms_first_response'')) ?g \<or>
      list_all (\<lambda>r. is_str (r ''ms_first_response'')) ?g"
    by (auto simp: list_all_iff)
  ultimately show ?thesis
    by (simp add: is_monotonic_increasing_def comp_def list_all_iff)
qed

lemma count_issues_sorted:
  assumes "sorted (map (row_key order_cols) (rows df))"
    and "list_all (\<lambda>r. is_number (r ''ms_first_response'')) (rows df) \<or>
      list_all (\<lambda>r. is_str (r ''ms_first_response'')) (rows df)"
  shows "count_issues df = 0"
proof -
  let ?rs = "filter (\<lambda>r. list_all (\<lambda>c. r c \<noteq> VNaN) [''user_id'', ''problem_id'']) (rows df)"
  have "sorted (map (row_key order_cols) ?rs)"
    using assms(1) by (rule sorted_filter)
  moreover have "list_all (\<lambda>r. is_number (r ''ms_first_response'')) ?rs \<or>
      list_all (\<lambda>r. is_str (r ''ms_first_response'')) ?rs"
    using assms(2) by (auto simp: list_all_iff)
  ultimately have "is_monotonic_increasing
     (map (\<lambda>r. r ''ms_first_response'') (filter (\<lambda>r. row_key [''user_id'', ''problem_id''] r = k) ?rs))" for k
    by (rule group_monotonic)
  then show ?thesis
    unfolding count_issues_def groupby_def Let_def by (simp add: comp_def)
qed

text \<open>
  C10, as the code has it.  On a frame that has the three key columns \<open>user_id\<close>,
  \<open>problem_id\<close> and \<open>ms_first_response\<close>, and whose \<open>ms_first_response\<close> column holds only
  numbers or only strings (so no missing value), the order validator returns, reports zero
  non-monotonic groups, and hands back the same columns and the same rows, none changed, stably
  sorted by \<open>(user_id, problem_id, ms_first_response)\<close>.  Without one of the key columns it
  raises \<open>KeyError\<close>, and a group whose \<open>ms_first_response\<close> cells mix numbers and strings is
  reported as non-monotonic although no value is missing.
\<close>

theorem check_sequential_order_reports_nothing:
  assumes "set order_cols \<subseteq> set (columns df)"
    and "list_all is_number (col_vals ''ms_first_response'' df) \<or>
      list_all is_str (col_vals ''ms_first_response'' df)"
  shows "\<exists>df_sorted. check_sequential_order df = Inr (0, df_sorted) \<and>
     columns df_sorted = columns df \<and>
     mset (rows df_sorted) = mset (rows df) \<and>
     sorted (map (row_key order_cols) (rows df_sorted)) \<and>
     (\<forall>k. filter (\<lambda>r. row_key order_cols r = k) (rows df_sorted) =
          filter (\<lambda>r. row_key order_cols r = k) (rows df))"
proof -
  let ?d = "df\<lparr>rows := sort_key (row_key order_cols) (rows df)\<rparr>"
  have chk: "check_sequential_order df = Inr (count_issues ?d, ?d)"
    using assms(1)
    by (simp add: check_sequential_order_def sort_values_def order_cols_def [symmetric])
  have "sorted (map (row_key order_cols) (rows ?d))"
    by simp
  moreover have "list_all (\<lambda>r. is_number (r ''ms_first_response'')) (rows ?d) \<or>
      list_all (\<lambda>r. is_str (r ''ms_first_response'')) (rows ?d)"
    using assms(2) by (simp add: col_vals_def list_all_iff)
  ultimately have "count_issues ?d = 0"
    by (rule count_issues_sorted)
  with chk show ?thesis
    by (simp add: sort_key_stable)
qed

lemma check_sequential_order_sample:
  "check_sequential_order (sample_frame rs) =
     Inr (count_issues (sample_frame (sort_key (row_key order_cols) rs)),
          sample_frame (sort_key (row_key order_cols) rs))"
proof -
  have "set order_cols \<subseteq> set input_cols"
    by (simp add: order_cols_def input_cols_def critical_columns_def)
  then show ?thesis
    by (simp add: check_sequential_order_def sort_values_def order_cols_def [symmetric]
        sample_frame_def)
qed

theorem check_sequential_order_reports_nothing_witness:
  "map_sum id (\<lambda>(issues, df_sorted). (issues, col_vals ''ms_first_response'' df_sorted))
     (check_sequential_order
        (sample_frame [sample_row (VInt 1) (VInt 10) (VInt 1) (VInt 3),
                       sample_row (VInt 1) (VInt 5) (VInt 1) (VInt 3)])) =
   Inr (0, [VInt 5, VInt 10])"
proof -
  let ?F = "sample_frame [sample_row (VInt 1) (VInt 10) (VInt 1) (VInt 3),
                       sample_row (VInt 1) (VInt 5) (VInt 1) (VInt 3)]"
  have cols: "set order_cols \<subseteq> set (columns ?F)"
    by (simp add: sample_frame_def order_cols_def input_cols_def critical_columns_def)
  have hom: "list_all is_number (col_vals ''ms_first_response'' ?F) \<or>
      list_all is_str (col_vals ''ms_first_response'' ?F)"
    by (simp add: col_vals_def sample_frame_def sample_row_cells)
  from check_sequential_order_reports_nothing [OF cols hom]
  obtain df_sorted where chk: "check_sequential_order ?F = Inr (0, df_sorted)"
    by blast
  with check_sequential_order_sample [of "rows ?F"]
  have "df_sorted = sample_frame (sort_key (row_key order_cols) (rows ?F))"
    by (simp add: sample_frame_def)
  with chk show ?thesis
    by (simp add: col_vals_def sample_frame_def row_key_def order_cols_def sample_row_cells
        float_of_int64_def)
qed

theorem check_sequential_order_counterexample:
  "check_sequential_order
     \<lparr>columns = [''problem_id'', ''ms_first_response''],
      rows = [row_of [(''problem_id'', VInt 20), (''ms_first_response'', VInt 5)]]\<rparr> =
   Inl KeyError \<and>
   col_vals ''ms_first_response''
     (sample_frame [sample_row (VInt 1) (VStr ''abc'') (VInt 1) (VInt 3),
                    sample_row (VInt 1) (VInt 5) (VInt 1) (VInt 3)]) = [VStr ''abc'', VInt 5] \<and>
   map_sum id fst
     (check_sequential_order
        (sample_frame [sample_row (VInt 1) (VStr ''abc'') (VInt 1) (VInt 3),
                       sample_row (VInt 1) (VInt 5) (VInt 1) (VInt 3)])) = Inr 1"
proof -
  let ?a = "sample_row (VInt 1) (VStr ''abc'') (VInt 1) (VInt 3)"
  let ?b = "sample_row (VInt 1) (VInt 5) (VInt 1) (VInt 3)"
  have key: "check_sequential_order
     \<lparr>columns = [''problem_id'', ''ms_first_response''],
      rows = [row_of [(''problem_id'', VInt 20), (''ms_first_response'', VInt 5)]]\<rparr> =
      Inl KeyError"
    by (simp add: check_sequential_order_def sort_values_def)
  have srt: "sort_key (row_key order_cols) [?a, ?b] = [?b, ?a]"
    by (simp add: row_key_def order_cols_def sample_row_cells float_of_int64_def)
  have grp: "groupby [''user_id'', ''problem_id''] (sample_frame [?b, ?a]) = [[?b, ?a]]"
    by (simp add: groupby_def sample_frame_def row_key_def sample_row_cells)
  have "count_issues (sample_frame [?b, ?a]) = 1"
    by (simp add: count_issues_def grp is_monotonic_increasing_def sample_row_cells)
  then have "map_sum id fst (check_sequential_order (sample_frame [?a, ?b])) = Inr 1"
    by (simp add: check_sequential_order_sample srt del: sort_key_simps)
  with key show ?thesis
    by (simp add: col_vals_def sample_frame_def sample_row_cells)
qed

end
